theory Spec2Isabelle
  imports Main "HOL-Library.AList"
begin

section \<open>Python values and dictionaries\<close>

text \<open>
  The engine works on \<^verbatim>\<open>Dict[str, Any]\<close>. The values that reach it through the
  transport layer are JSON values; they are modelled by the datatype below (floating
  point numbers are left out). A dictionary is an association list with pairwise
  distinct keys, in insertion order, as a Python \<^verbatim>\<open>dict\<close> is.
\<close>

datatype pyval =
    VNone
  | VBool bool
  | VInt int
  | VStr string
  | VList "pyval list"
  | VDict "(string \<times> pyval) list"

type_synonym 'v dict = "(string \<times> 'v) list"

type_synonym state = "pyval dict"

text \<open>The exceptions the modelled code can raise, one constructor per raise site.\<close>

datatype exc =
    ToolNotRegistered pyval  \<comment> \<open>\<^verbatim>\<open>KeyError(f"Tool '{name}' is not registered")\<close>\<close>
  | GraphNotFound string     \<comment> \<open>\<^verbatim>\<open>KeyError(f"Graph '{graph_id}' not found")\<close>\<close>
  | RunNotFound string       \<comment> \<open>\<^verbatim>\<open>KeyError(f"Run '{run_id}' not found")\<close>\<close>
  | MissingKey string        \<comment> \<open>\<^verbatim>\<open>KeyError(key)\<close> raised by a subscript \<^verbatim>\<open>d[key]\<close>\<close>
  | Unhashable pyval         \<comment> \<open>\<^verbatim>\<open>TypeError: unhashable type\<close>, a list or dict used as a key\<close>
  | ValueError string        \<comment> \<open>\<^verbatim>\<open>ValueError(msg)\<close>\<close>
  | AttributeError string    \<comment> \<open>a method looked up on a value that lacks it\<close>
  | TypeError string         \<comment> \<open>an operator applied to operands of the wrong type\<close>
  | ToolFault string         \<comment> \<open>any other exception raised inside a tool\<close>

text \<open>Python's \<^verbatim>\<open>bool(v)\<close>.\<close>

fun truthy :: "pyval \<Rightarrow> bool" where
  "truthy VNone = False"
| "truthy (VBool b) = b"
| "truthy (VInt i) = (i \<noteq> 0)"
| "truthy (VStr s) = (s \<noteq> [])"
| "truthy (VList xs) = (xs \<noteq> [])"
| "truthy (VDict d) = (d \<noteq> [])"

text \<open>\<^verbatim>\<open>d.get(k)\<close> for a string key: \<open>None\<close> stands for an absent key.\<close>

definition dict_get :: "'v dict \<Rightarrow> string \<Rightarrow> 'v option" where
  "dict_get d k = map_of d k"

text \<open>
  \<^verbatim>\<open>d.get(key)\<close> for a key that is an arbitrary value: a list or a dict is unhashable
  and raises; a value that is not a string is never a key of a string-keyed dictionary.
\<close>

fun dict_get_any :: "'v dict \<Rightarrow> pyval \<Rightarrow> exc + 'v option" where
  "dict_get_any d (VStr k) = Inr (dict_get d k)"
| "dict_get_any d (VList xs) = Inl (Unhashable (VList xs))"
| "dict_get_any d (VDict kv) = Inl (Unhashable (VDict kv))"
| "dict_get_any d VNone = Inr None"
| "dict_get_any d (VBool b) = Inr None"
| "dict_get_any d (VInt i) = Inr None"

text \<open>\<^verbatim>\<open>d[k] = v\<close>: an existing key keeps its position, a new key goes to the end.\<close>

definition dict_set :: "'v dict \<Rightarrow> string \<Rightarrow> 'v \<Rightarrow> 'v dict" where
  "dict_set d k v = AList.update k v d"

text \<open>\<^verbatim>\<open>d.update(u)\<close>: the items of \<open>u\<close> are stored into \<open>d\<close> one by one, in order.\<close>

fun dict_update :: "'v dict \<Rightarrow> 'v dict \<Rightarrow> 'v dict" where
  "dict_update d [] = d"
| "dict_update d ((k, v) # u) = dict_update (dict_set d k v) u"

definition keys :: "'v dict \<Rightarrow> string set" where
  "keys d = fst ` set d"

text \<open>The invariant of a Python dictionary: no key occurs twice.\<close>

definition wf_dict :: "'v dict \<Rightarrow> bool" where
  "wf_dict d = distinct (map fst d)"

section \<open>The data model of \<^verbatim>\<open>engine.py\<close> and \<^verbatim>\<open>models.py\<close>\<close>

text \<open>\<^verbatim>\<open>NodeLogEntry\<close>; its \<^verbatim>\<open>state\<close> field is named \<open>snapshot\<close> here.\<close>

record node_log_entry =
  node :: pyval
  snapshot :: state

record graph =
  graph_id :: string
  nodes :: "string list"
  start_node :: string
  edges :: "(pyval dict) dict"

text \<open>
  \<^verbatim>\<open>RunRecord\<close>. \<^verbatim>\<open>current_node\<close> is an \<^verbatim>\<open>Optional[str]\<close>: \<open>VNone\<close> is Python's
  \<^verbatim>\<open>None\<close>. \<^verbatim>\<open>error_message\<close> holds \<^verbatim>\<open>str(exc)\<close>, which the exception determines; the
  model keeps the exception itself. The field \<^verbatim>\<open>graph_id\<close> is named \<open>of_graph\<close>.
\<close>

record run_record =
  run_id :: string
  of_graph :: string
  status :: string
  current_node :: pyval
  state :: state
  log :: "node_log_entry list"
  error_message :: "exc option"

text \<open>
  A tool receives the run's state dictionary itself, not a copy, so it can change it in
  place before it returns or raises. The result of a call therefore carries the
  dictionary as the call left it, next to the value returned (\<open>None\<close> for Python's
  \<^verbatim>\<open>None\<close>) or the exception raised.
\<close>

datatype tool_result =
    Returned state "state option"
  | Raised state exc

type_synonym tool_func = "state \<Rightarrow> tool_result"

type_synonym tool_registry = "string \<Rightarrow> tool_func option"

definition register :: "tool_registry \<Rightarrow> string \<Rightarrow> tool_func \<Rightarrow> tool_registry" where
  "register reg name func = reg(name \<mapsto> func)"

text \<open>\<^verbatim>\<open>ToolRegistry.get\<close>: the test \<^verbatim>\<open>name not in self._tools\<close> hashes \<open>name\<close>.\<close>

fun registry_get :: "tool_registry \<Rightarrow> pyval \<Rightarrow> exc + tool_func" where
  "registry_get reg (VStr n) =
     (case reg n of None \<Rightarrow> Inl (ToolNotRegistered (VStr n)) | Some f \<Rightarrow> Inr f)"
| "registry_get reg (VList xs) = Inl (Unhashable (VList xs))"
| "registry_get reg (VDict kv) = Inl (Unhashable (VDict kv))"
| "registry_get reg VNone = Inl (ToolNotRegistered VNone)"
| "registry_get reg (VBool b) = Inl (ToolNotRegistered (VBool b))"
| "registry_get reg (VInt i) = Inl (ToolNotRegistered (VInt i))"

text \<open>
  \<^verbatim>\<open>GraphEngine\<close>. \<^verbatim>\<open>uuid4()\<close> is modelled as an id sequence \<open>uuid4 :: nat \<Rightarrow> string\<close>
  given to the operations; \<open>uuid_calls\<close> counts the ids drawn so far, so the ids issued
  before a call are \<open>uuid4 0, \<dots>, uuid4 (uuid_calls - 1)\<close>.
\<close>

record engine =
  tool_registry :: tool_registry
  graphs :: "graph dict"
  runs :: "run_record dict"
  uuid_calls :: nat

section \<open>Graph management\<close>

definition create_graph ::
  "(nat \<Rightarrow> string) \<Rightarrow> engine \<Rightarrow> string list \<Rightarrow> string \<Rightarrow> (pyval dict) dict
     \<Rightarrow> (exc + string) \<times> engine" where
  "create_graph uuid4 eng nodes_arg start edges_arg =
     (if start \<notin> set nodes_arg
      then (Inl (ValueError ''start_node must be one of the nodes''), eng)
      else
        let gid = uuid4 (uuid_calls eng);
            g = \<lparr>graph_id = gid, nodes = nodes_arg, start_node = start, edges = edges_arg\<rparr>
        in (Inr gid,
            eng\<lparr>graphs := dict_set (graphs eng) gid g,
                uuid_calls := Suc (uuid_calls eng)\<rparr>))"

section \<open>Execution\<close>

text \<open>\<^verbatim>\<open>GraphEngine._resolve_next_node\<close>; the result \<open>VNone\<close> is Python's \<^verbatim>\<open>None\<close>.\<close>

definition resolve_next_node :: "pyval dict \<Rightarrow> state \<Rightarrow> exc + pyval" where
  "resolve_next_node edge_cfg st =
     (if edge_cfg = [] then Inr VNone
      else
        let condition_key = (case dict_get edge_cfg ''condition_key'' of
                               None \<Rightarrow> VNone | Some v \<Rightarrow> v)
        in if condition_key \<noteq> VNone then
             (case dict_get_any st condition_key of
                Inl e \<Rightarrow> Inl e
              | Inr found \<Rightarrow>
                  let flag = (case found of None \<Rightarrow> False | Some v \<Rightarrow> truthy v)
                  in if flag
                     then (case dict_get edge_cfg ''on_true'' of
                             None \<Rightarrow> Inl (MissingKey ''on_true'') | Some t \<Rightarrow> Inr t)
                     else (case dict_get edge_cfg ''on_false'' of
                             None \<Rightarrow> Inl (MissingKey ''on_false'') | Some f \<Rightarrow> Inr f))
           else (case dict_get edge_cfg ''next'' of None \<Rightarrow> Inr VNone | Some n \<Rightarrow> Inr n))"

definition max_steps :: nat where
  "max_steps = 1000"

text \<open>
  One pass through the body of the \<^verbatim>\<open>while\<close> loop of \<^verbatim>\<open>_execute_run\<close>. The run record
  is changed in place, so every outcome carries the record as the pass left it:
  \<open>Raise\<close> when an exception leaves the loop, \<open>Break\<close> at \<^verbatim>\<open>break\<close>, \<open>Next\<close> with the
  successor when the loop goes on.
\<close>

datatype step_outcome =
    Raise run_record exc
  | Break run_record
  | Next run_record pyval

definition execute_step ::
  "graph \<Rightarrow> tool_registry \<Rightarrow> run_record \<Rightarrow> pyval \<Rightarrow> step_outcome" where
  "execute_step g reg run current =
     (let run1 = run\<lparr>current_node := current\<rparr> in
      case registry_get reg current of
        Inl e \<Rightarrow> Raise run1 e
      | Inr tool \<Rightarrow>
          (case tool (state run1) of
             Raised st e \<Rightarrow> Raise (run1\<lparr>state := st\<rparr>) e
           | Returned st ret \<Rightarrow>
               (let new_state = (case ret of None \<Rightarrow> [] | Some u \<Rightarrow> u);
                    run2 = run1\<lparr>state := dict_update st new_state\<rparr>;
                    run3 = run2\<lparr>log := log run2 @ [\<lparr>node = current, snapshot = state run2\<rparr>]\<rparr>
                in (case dict_get_any (edges g) current of
                      Inl e \<Rightarrow> Raise run3 e
                    | Inr found \<Rightarrow>
                        (let edge_cfg = (case found of None \<Rightarrow> [] | Some c \<Rightarrow> c) in
                         (case resolve_next_node edge_cfg (state run3) of
                            Inl e \<Rightarrow> Raise run3 e
                          | Inr next_node \<Rightarrow>
                              (if \<not> truthy next_node \<or> next_node = VStr ''end''
                               then Break run3
                               else Next run3 next_node)))))))"

text \<open>
  The \<^verbatim>\<open>while current and steps < max_steps\<close> loop. The result is the run record as the
  loop left it and the exception that ended it, if any.
\<close>

function execute_loop ::
  "graph \<Rightarrow> tool_registry \<Rightarrow> run_record \<Rightarrow> pyval \<Rightarrow> nat \<Rightarrow> run_record \<times> exc option" where
  "execute_loop g reg run current steps =
     (if truthy current \<and> steps < max_steps then
        (case execute_step g reg run current of
           Raise r e \<Rightarrow> (r, Some e)
         | Break r \<Rightarrow> (r, None)
         | Next r next_node \<Rightarrow> execute_loop g reg r next_node (steps + 1))
      else (run, None))"
  by pat_completeness auto
termination
  by (relation "measure (\<lambda>(g, reg, run, current, steps). max_steps - steps)") auto

declare execute_loop.simps [simp del]

definition execute_run :: "graph \<Rightarrow> tool_registry \<Rightarrow> run_record \<Rightarrow> run_record \<times> exc option" where
  "execute_run g reg run = execute_loop g reg run (VStr (start_node g)) 0"

text \<open>The \<^verbatim>\<open>RunRecord(...)\<close> that \<^verbatim>\<open>run_graph\<close> builds before it starts the loop.\<close>

definition new_run :: "string \<Rightarrow> string \<Rightarrow> graph \<Rightarrow> state \<Rightarrow> run_record" where
  "new_run rid gid g initial_state =
     \<lparr>run_id = rid, of_graph = gid, status = ''running'',
      current_node = VStr (start_node g), state = initial_state, log = [],
      error_message = None\<rparr>"

text \<open>The \<^verbatim>\<open>try\<close>/\<^verbatim>\<open>except\<close> around \<^verbatim>\<open>_execute_run\<close> in \<^verbatim>\<open>run_graph\<close>.\<close>

definition finish_run :: "run_record \<times> exc option \<Rightarrow> run_record" where
  "finish_run res =
     (case res of
        (r, None) \<Rightarrow> r\<lparr>status := ''completed'', current_node := VNone\<rparr>
      | (r, Some e) \<Rightarrow> r\<lparr>status := ''error'', error_message := Some e\<rparr>)"

text \<open>
  \<^verbatim>\<open>GraphEngine.run_graph\<close>. The run store holds the very record the loop changes, so
  after the call it holds the record that is returned.
\<close>

definition run_graph ::
  "(nat \<Rightarrow> string) \<Rightarrow> engine \<Rightarrow> string \<Rightarrow> state \<Rightarrow> (exc + run_record) \<times> engine" where
  "run_graph uuid4 eng gid initial_state =
     (case dict_get (graphs eng) gid of
        None \<Rightarrow> (Inl (GraphNotFound gid), eng)
      | Some g \<Rightarrow>
          let rid = uuid4 (uuid_calls eng);
              run = new_run rid gid g initial_state;
              final = finish_run (execute_run g (tool_registry eng) run)
          in (Inr final,
              eng\<lparr>runs := dict_set (runs eng) rid final,
                  uuid_calls := Suc (uuid_calls eng)\<rparr>))"

definition get_run :: "engine \<Rightarrow> string \<Rightarrow> exc + run_record" where
  "get_run eng rid =
     (case dict_get (runs eng) rid of None \<Rightarrow> Inl (RunNotFound rid) | Some r \<Rightarrow> Inr r)"


section \<open>The steps of a run\<close>

text \<open>
  A configuration \<open>(run, current, steps)\<close> holds the values of the loop's variables at
  the top of the \<^verbatim>\<open>while\<close> loop. \<open>reaches g reg c c'\<close> says that the loop started in \<open>c\<close>
  comes to \<open>c'\<close> after some number of complete passes.
\<close>

inductive reaches ::
  "graph \<Rightarrow> tool_registry \<Rightarrow> run_record \<times> pyval \<times> nat \<Rightarrow> run_record \<times> pyval \<times> nat \<Rightarrow> bool"
  for g :: graph and reg :: tool_registry where
  reaches_refl: "reaches g reg c c"
| reaches_step:
    "reaches g reg c (run, current, steps) \<Longrightarrow> truthy current \<Longrightarrow> steps < max_steps \<Longrightarrow>
     execute_step g reg run current = Next run' next_node \<Longrightarrow>
     reaches g reg c (run', next_node, steps + 1)"

text \<open>The configuration in which \<^verbatim>\<open>run_graph\<close> enters the loop.\<close>

definition initial_config ::
  "(nat \<Rightarrow> string) \<Rightarrow> engine \<Rightarrow> string \<Rightarrow> graph \<Rightarrow> state \<Rightarrow> run_record \<times> pyval \<times> nat" where
  "initial_config uuid4 eng gid g initial_state =
     (new_run (uuid4 (uuid_calls eng)) gid g initial_state, VStr (start_node g), 0)"

text \<open>\<^verbatim>\<open>tool(run.state) or {}\<close>.\<close>

definition or_empty :: "state option \<Rightarrow> state" where
  "or_empty ret = (case ret of None \<Rightarrow> [] | Some u \<Rightarrow> u)"

section \<open>The tool \<^verbatim>\<open>refine_summary\<close> of \<^verbatim>\<open>tools.py\<close>\<close>

text \<open>
  A character stands for the code point of its number, so strings range over the code
  points below 256. \<^verbatim>\<open>str.split()\<close> without arguments cuts at runs of whitespace and
  yields no empty word; the whitespace below 256 is 9 to 13, 28 to 32, 133 and 160.
\<close>

definition is_space :: "char \<Rightarrow> bool" where
  "is_space c = (of_char c \<in> {9, 10, 11, 12, 13, 28, 29, 30, 31, 32, 133, 160 :: nat})"

fun split_words :: "string \<Rightarrow> string \<Rightarrow> string list" where
  "split_words [] w = (if w = [] then [] else [w])"
| "split_words (c # cs) w =
     (if is_space c then (if w = [] then split_words cs [] else w # split_words cs [])
      else split_words cs (w @ [c]))"

definition py_split :: "string \<Rightarrow> string list" where
  "py_split s = split_words s []"

text \<open>\<^verbatim>\<open>sep.join(ws)\<close> for a list of strings.\<close>

fun py_join :: "string \<Rightarrow> string list \<Rightarrow> string" where
  "py_join sep [] = []"
| "py_join sep [w] = w"
| "py_join sep (w # w' # ws) = w @ sep @ py_join sep (w' # ws)"

text \<open>\<^verbatim>\<open>xs[:n]\<close> for an integer \<open>n\<close>: a negative \<open>n\<close> counts from the end.\<close>

definition slice_to :: "'a list \<Rightarrow> int \<Rightarrow> 'a list" where
  "slice_to xs n = (if 0 \<le> n then take (nat n) xs else take (nat (int (length xs) + n)) xs)"

text \<open>\<^verbatim>\<open>words[:limit]\<close>: \<open>limit\<close> is an integer, a boolean (an integer in Python) or \<^verbatim>\<open>None\<close>.\<close>

fun slice_words :: "string list \<Rightarrow> pyval \<Rightarrow> exc + string list" where
  "slice_words ws (VInt n) = Inr (slice_to ws n)"
| "slice_words ws (VBool b) = Inr (slice_to ws (if b then 1 else 0))"
| "slice_words ws VNone = Inr ws"
| "slice_words ws (VStr s) = Inl (TypeError ''slice indices must be integers or None'')"
| "slice_words ws (VList xs) = Inl (TypeError ''slice indices must be integers or None'')"
| "slice_words ws (VDict d) = Inl (TypeError ''slice indices must be integers or None'')"

text \<open>\<^verbatim>\<open>len(words) <= limit\<close>.\<close>

fun len_le :: "string list \<Rightarrow> pyval \<Rightarrow> exc + bool" where
  "len_le ws (VInt n) = Inr (int (length ws) \<le> n)"
| "len_le ws (VBool b) = Inr (int (length ws) \<le> (if b then 1 else 0))"
| "len_le ws VNone = Inl (TypeError ''<= not supported between int and NoneType'')"
| "len_le ws (VStr s) = Inl (TypeError ''<= not supported between int and str'')"
| "len_le ws (VList xs) = Inl (TypeError ''<= not supported between int and list'')"
| "len_le ws (VDict d) = Inl (TypeError ''<= not supported between int and dict'')"

text \<open>\<^verbatim>\<open>state.get(k)\<close> as a value: \<^verbatim>\<open>None\<close> for an absent key.\<close>

definition get_or_none :: "state \<Rightarrow> string \<Rightarrow> pyval" where
  "get_or_none st k = (case dict_get st k of None \<Rightarrow> VNone | Some v \<Rightarrow> v)"

text \<open>
  \<^verbatim>\<open>refine_summary\<close>. The two subscript assignments write into the dictionary the
  caller passed; the dictionary literal that follows is a new object, which is returned.
\<close>

definition refine_summary :: tool_func where
  "refine_summary st =
     (let draft = (case dict_get st ''draft_summary'' of None \<Rightarrow> VStr [] | Some v \<Rightarrow> v);
          limit = (case dict_get st ''summary_limit_words'' of None \<Rightarrow> VInt 40 | Some v \<Rightarrow> v)
      in case draft of
           VStr d \<Rightarrow>
             (let words = py_split d in
              case slice_words words limit of
                Inl e \<Rightarrow> Raised st e
              | Inr sl \<Rightarrow>
                  (let final_summary = py_join '' '' sl in
                   case len_le words limit of
                     Inl e \<Rightarrow> Raised st e
                   | Inr is_short_enough \<Rightarrow>
                       (let st1 = dict_set st ''final_summary'' (VStr final_summary);
                            st2 = dict_set st1 ''is_summary_short_enough'' (VBool is_short_enough)
                        in Returned st2 (Some
                             [(''text'', get_or_none st2 ''text''),
                              (''chunk_size'', get_or_none st2 ''chunk_size''),
                              (''per_chunk_summary_words'', get_or_none st2 ''per_chunk_summary_words''),
                              (''summary_limit_words'', get_or_none st2 ''summary_limit_words''),
                              (''final_summary'', VStr final_summary),
                              (''is_summary_short_enough'', VBool is_short_enough),
                              (''chunks'', get_or_none st2 ''chunks''),
                              (''summaries'', get_or_none st2 ''summaries''),
                              (''draft_summary'', draft)]))))
         | VNone \<Rightarrow> Raised st (AttributeError ''split'')
         | VBool b \<Rightarrow> Raised st (AttributeError ''split'')
         | VInt i \<Rightarrow> Raised st (AttributeError ''split'')
         | VList xs \<Rightarrow> Raised st (AttributeError ''split'')
         | VDict kv \<Rightarrow> Raised st (AttributeError ''split''))"

section \<open>Sample tools, graphs and engines\<close>

text \<open>An id sequence without repetition: the \<open>n\<close>-th id is \<open>n\<close> times the letter u.\<close>

definition sample_uuid4 :: "nat \<Rightarrow> string" where
  "sample_uuid4 n = replicate n (CHR ''u'')"

text \<open>A tool that returns \<^verbatim>\<open>{"ready": True}\<close> and leaves its argument alone.\<close>

definition set_ready :: tool_func where
  "set_ready st = Returned st (Some [(''ready'', VBool True)])"

text \<open>A tool that returns \<^verbatim>\<open>None\<close>.\<close>

definition no_op :: tool_func where
  "no_op st = Returned st None"

definition sample_registry :: tool_registry where
  "sample_registry =
     register (register (register Map.empty ''X'' set_ready) ''loop'' no_op)
       ''refine_summary'' refine_summary"

text \<open>An engine that holds one graph under the id \<open>''g''\<close>.\<close>

definition engine_with :: "graph \<Rightarrow> engine" where
  "engine_with g =
     \<lparr>tool_registry = sample_registry, graphs = [(''g'', g)], runs = [], uuid_calls = 1\<rparr>"

definition single_node :: "string \<Rightarrow> pyval dict \<Rightarrow> graph" where
  "single_node n edge_cfg =
     \<lparr>graph_id = ''g'', nodes = [n], start_node = n, edges = [(n, edge_cfg)]\<rparr>"

section \<open>Notions used to state the properties\<close>

text \<open>\<^verbatim>\<open>graph.edges.get(current, {})\<close> for a node name.\<close>

definition edge_cfg_of :: "graph \<Rightarrow> string \<Rightarrow> pyval dict" where
  "edge_cfg_of g name = (case dict_get (edges g) name of None \<Rightarrow> [] | Some c \<Rightarrow> c)"

text \<open>
  The run record after the first three assignments of a pass: \<^verbatim>\<open>current_node\<close> is set,
  the state is the merged state \<open>post\<close>, and the log has one more entry.
\<close>

definition after_merge :: "run_record \<Rightarrow> pyval \<Rightarrow> state \<Rightarrow> run_record" where
  "after_merge run current post =
     run\<lparr>current_node := current, state := post,
         log := log run @ [\<lparr>node = current, snapshot = post\<rparr>]\<rparr>"

text \<open>The edge rule \<^verbatim>\<open>{"condition_key": "ready", "on_true": "end", "on_false": "X"}\<close>.\<close>

definition ready_gate :: "pyval dict" where
  "ready_gate = [(''condition_key'', VStr ''ready''), (''on_true'', VStr ''end''),
                 (''on_false'', VStr ''X'')]"



text \<open>The rule \<^verbatim>\<open>{"next": "loop"}\<close> of a node \<open>loop\<close> that leads back to itself.\<close>

definition self_loop :: "pyval dict" where
  "self_loop = [(''next'', VStr ''loop'')]"

text \<open>The linear rule \<^verbatim>\<open>{"next": ""}\<close>.\<close>

definition empty_next :: "pyval dict" where
  "empty_next = [(''next'', VStr '''')]"


text \<open>The node \<open>X\<close> followed by the node \<open>refine_summary\<close>, which has no edge rule.\<close>

definition ready_then_refine :: graph where
  "ready_then_refine =
     \<lparr>graph_id = ''g'', nodes = [''X'', ''refine_summary''], start_node = ''X'',
      edges = [(''X'', [(''next'', VStr ''refine_summary'')])]\<rparr>"

text \<open>The state dictionary as a tool call left it.\<close>

fun state_left :: "tool_result \<Rightarrow> state" where
  "state_left (Returned st ret) = st"
| "state_left (Raised st e) = st"

text \<open>A tool that deletes no key from the dictionary it is given.\<close>

definition keeps_keys :: "tool_func \<Rightarrow> bool" where
  "keeps_keys t = (\<forall>s. keys s \<subseteq> keys (state_left (t s)))"

definition all_keep_keys :: "tool_registry \<Rightarrow> bool" where
  "all_keep_keys reg = (\<forall>n t. reg n = Some t \<longrightarrow> keeps_keys t)"

text \<open>The run record a pass of the loop leaves.\<close>

fun outcome_run :: "step_outcome \<Rightarrow> run_record" where
  "outcome_run (Raise r e) = r"
| "outcome_run (Break r) = r"
| "outcome_run (Next r next_node) = r"

text \<open>The same rule for a node \<open>loop\<close>: a false flag leads back to the node.\<close>

definition loop_gate :: "pyval dict" where
  "loop_gate = [(''condition_key'', VStr ''ready''), (''on_true'', VStr ''end''),
                (''on_false'', VStr ''loop'')]"

section \<open>Nested values that are shared\<close>

text \<open>
  In the model above a value is immutable. In Python a list or a dict held in the state
  is an object: the state dictionary, the log snapshots and the tools all hold
  references to it, and \<^verbatim>\<open>dict(run.state)\<close> copies the references, not the objects. To
  settle what a snapshot is independent of, this section repeats \<^verbatim>\<open>_execute_run\<close> and
  the \<^verbatim>\<open>try\<close>/\<^verbatim>\<open>except\<close> of \<^verbatim>\<open>run_graph\<close> over a heap. A value is atomic or the address of
  a list or dict object in the heap. The state dictionary and the snapshots stay
  dictionaries of their own, as in the code, holding such values; only the nested
  objects live in the heap. A tool receives the heap and the state dictionary and
  leaves both as it likes. The graph is given, the run and graph ids are left out.
\<close>

datatype hval =
    HNone
  | HBool bool
  | HInt int
  | HStr string
  | HRef nat

datatype obj =
    OList "hval list"
  | ODict "hval dict"

type_synonym heap = "(nat \<times> obj) list"

type_synonym hstate = "hval dict"

text \<open>\<^verbatim>\<open>bool(v)\<close>; an empty list or dict object is falsy.\<close>

fun h_truthy :: "heap \<Rightarrow> hval \<Rightarrow> bool" where
  "h_truthy h HNone = False"
| "h_truthy h (HBool b) = b"
| "h_truthy h (HInt i) = (i \<noteq> 0)"
| "h_truthy h (HStr s) = (s \<noteq> [])"
| "h_truthy h (HRef a) =
     (case map_of h a of
        None \<Rightarrow> False
      | Some (OList xs) \<Rightarrow> xs \<noteq> []
      | Some (ODict d) \<Rightarrow> d \<noteq> [])"

text \<open>
  What a reader finds when it follows the references of a value down to depth \<open>n\<close>, as
  a value of the first model.
\<close>

primrec view :: "nat \<Rightarrow> heap \<Rightarrow> hval \<Rightarrow> pyval" where
  "view 0 h v =
     (case v of HNone \<Rightarrow> VNone | HBool b \<Rightarrow> VBool b | HInt i \<Rightarrow> VInt i | HStr s \<Rightarrow> VStr s
      | HRef a \<Rightarrow> VNone)"
| "view (Suc n) h v =
     (case v of HNone \<Rightarrow> VNone | HBool b \<Rightarrow> VBool b | HInt i \<Rightarrow> VInt i | HStr s \<Rightarrow> VStr s
      | HRef a \<Rightarrow>
          (case map_of h a of
             None \<Rightarrow> VNone
           | Some (OList xs) \<Rightarrow> VList (map (view n h) xs)
           | Some (ODict d) \<Rightarrow> VDict (map (\<lambda>(k, x). (k, view n h x)) d)))"

definition view_dict :: "nat \<Rightarrow> heap \<Rightarrow> hstate \<Rightarrow> state" where
  "view_dict n h d = map (\<lambda>(k, x). (k, view n h x)) d"

text \<open>A tool call leaves a heap and the state dictionary, and returns or raises.\<close>

datatype sh_tool_result =
    ShReturned heap hstate "hstate option"
  | ShRaised heap hstate exc

type_synonym sh_tool_func = "heap \<Rightarrow> hstate \<Rightarrow> sh_tool_result"

type_synonym sh_tool_registry = "string \<Rightarrow> sh_tool_func option"

fun sh_registry_get :: "sh_tool_registry \<Rightarrow> pyval \<Rightarrow> exc + sh_tool_func" where
  "sh_registry_get reg (VStr n) =
     (case reg n of None \<Rightarrow> Inl (ToolNotRegistered (VStr n)) | Some f \<Rightarrow> Inr f)"
| "sh_registry_get reg (VList xs) = Inl (Unhashable (VList xs))"
| "sh_registry_get reg (VDict kv) = Inl (Unhashable (VDict kv))"
| "sh_registry_get reg VNone = Inl (ToolNotRegistered VNone)"
| "sh_registry_get reg (VBool b) = Inl (ToolNotRegistered (VBool b))"
| "sh_registry_get reg (VInt i) = Inl (ToolNotRegistered (VInt i))"

record sh_log_entry =
  sh_node :: pyval
  sh_snapshot :: hstate

record sh_run_record =
  sh_status :: string
  sh_current_node :: pyval
  sh_state :: hstate
  sh_log :: "sh_log_entry list"
  sh_error_message :: "exc option"
  sh_heap :: heap

text \<open>\<^verbatim>\<open>_resolve_next_node\<close>: the flag of a reference depends on the object.\<close>

definition sh_resolve_next_node :: "pyval dict \<Rightarrow> heap \<Rightarrow> hstate \<Rightarrow> exc + pyval" where
  "sh_resolve_next_node edge_cfg h st =
     (if edge_cfg = [] then Inr VNone
      else
        let condition_key = (case dict_get edge_cfg ''condition_key'' of
                               None \<Rightarrow> VNone | Some v \<Rightarrow> v)
        in if condition_key \<noteq> VNone then
             (case dict_get_any st condition_key of
                Inl e \<Rightarrow> Inl e
              | Inr found \<Rightarrow>
                  let flag = (case found of None \<Rightarrow> False | Some v \<Rightarrow> h_truthy h v)
                  in if flag
                     then (case dict_get edge_cfg ''on_true'' of
                             None \<Rightarrow> Inl (MissingKey ''on_true'') | Some t \<Rightarrow> Inr t)
                     else (case dict_get edge_cfg ''on_false'' of
                             None \<Rightarrow> Inl (MissingKey ''on_false'') | Some f \<Rightarrow> Inr f))
           else (case dict_get edge_cfg ''next'' of None \<Rightarrow> Inr VNone | Some n \<Rightarrow> Inr n))"

datatype sh_step_outcome =
    ShRaise sh_run_record exc
  | ShBreak sh_run_record
  | ShNext sh_run_record pyval

text \<open>The body of the loop; the snapshot copies the bindings of the state dictionary.\<close>

definition sh_execute_step ::
  "graph \<Rightarrow> sh_tool_registry \<Rightarrow> sh_run_record \<Rightarrow> pyval \<Rightarrow> sh_step_outcome" where
  "sh_execute_step g reg run current =
     (let run1 = run\<lparr>sh_current_node := current\<rparr> in
      case sh_registry_get reg current of
        Inl e \<Rightarrow> ShRaise run1 e
      | Inr tool \<Rightarrow>
          (case tool (sh_heap run1) (sh_state run1) of
             ShRaised h st e \<Rightarrow> ShRaise (run1\<lparr>sh_state := st, sh_heap := h\<rparr>) e
           | ShReturned h st ret \<Rightarrow>
               (let new_state = (case ret of None \<Rightarrow> [] | Some u \<Rightarrow> u);
                    run2 = run1\<lparr>sh_state := dict_update st new_state, sh_heap := h\<rparr>;
                    run3 = run2\<lparr>sh_log := sh_log run2 @
                                    [\<lparr>sh_node = current, sh_snapshot = sh_state run2\<rparr>]\<rparr>
                in (case dict_get_any (edges g) current of
                      Inl e \<Rightarrow> ShRaise run3 e
                    | Inr found \<Rightarrow>
                        (let edge_cfg = (case found of None \<Rightarrow> [] | Some c \<Rightarrow> c) in
                         (case sh_resolve_next_node edge_cfg (sh_heap run3) (sh_state run3) of
                            Inl e \<Rightarrow> ShRaise run3 e
                          | Inr next_node \<Rightarrow>
                              (if \<not> truthy next_node \<or> next_node = VStr ''end''
                               then ShBreak run3
                               else ShNext run3 next_node)))))))"

function sh_execute_loop ::
  "graph \<Rightarrow> sh_tool_registry \<Rightarrow> sh_run_record \<Rightarrow> pyval \<Rightarrow> nat
     \<Rightarrow> sh_run_record \<times> exc option" where
  "sh_execute_loop g reg run current steps =
     (if truthy current \<and> steps < max_steps then
        (case sh_execute_step g reg run current of
           ShRaise r e \<Rightarrow> (r, Some e)
         | ShBreak r \<Rightarrow> (r, None)
         | ShNext r next_node \<Rightarrow> sh_execute_loop g reg r next_node (steps + 1))
      else (run, None))"
  by pat_completeness auto
termination
  by (relation "measure (\<lambda>(g, reg, run, current, steps). max_steps - steps)") auto

declare sh_execute_loop.simps [simp del]

text \<open>\<^verbatim>\<open>run_graph\<close> from the construction of the run record on.\<close>

definition sh_new_run :: "graph \<Rightarrow> heap \<Rightarrow> hstate \<Rightarrow> sh_run_record" where
  "sh_new_run g h initial_state =
     \<lparr>sh_status = ''running'', sh_current_node = VStr (start_node g),
      sh_state = initial_state, sh_log = [], sh_error_message = None, sh_heap = h\<rparr>"

definition sh_finish_run :: "sh_run_record \<times> exc option \<Rightarrow> sh_run_record" where
  "sh_finish_run res =
     (case res of
        (r, None) \<Rightarrow> r\<lparr>sh_status := ''completed'', sh_current_node := VNone\<rparr>
      | (r, Some e) \<Rightarrow> r\<lparr>sh_status := ''error'', sh_error_message := Some e\<rparr>)"

definition sh_run_graph ::
  "graph \<Rightarrow> sh_tool_registry \<Rightarrow> heap \<Rightarrow> hstate \<Rightarrow> sh_run_record" where
  "sh_run_graph g reg h initial_state =
     sh_finish_run
       (sh_execute_loop g reg (sh_new_run g h initial_state) (VStr (start_node g)) 0)"

inductive sh_reaches ::
  "graph \<Rightarrow> sh_tool_registry \<Rightarrow> sh_run_record \<times> pyval \<times> nat
     \<Rightarrow> sh_run_record \<times> pyval \<times> nat \<Rightarrow> bool"
  for g :: graph and reg :: sh_tool_registry where
  sh_reaches_refl: "sh_reaches g reg c c"
| sh_reaches_step:
    "sh_reaches g reg c (run, current, steps) \<Longrightarrow> truthy current \<Longrightarrow> steps < max_steps \<Longrightarrow>
     sh_execute_step g reg run current = ShNext run' next_node \<Longrightarrow>
     sh_reaches g reg c (run', next_node, steps + 1)"

text \<open>\<^verbatim>\<open>return {"xs": [1]}\<close>: a new list object, at the first free address.\<close>

definition make_list :: sh_tool_func where
  "make_list h st =
     ShReturned (h @ [(length h, OList [HInt 1])]) st (Some [(''xs'', HRef (length h))])"

text \<open>\<^verbatim>\<open>state["xs"].append(2); return None\<close>.\<close>

definition append_two :: sh_tool_func where
  "append_two h st =
     (case dict_get st ''xs'' of
        None \<Rightarrow> ShRaised h st (MissingKey ''xs'')
      | Some (HRef a) \<Rightarrow>
          (case map_of h a of
             Some (OList xs) \<Rightarrow> ShReturned (AList.update a (OList (xs @ [HInt 2])) h) st None
           | Some (ODict d) \<Rightarrow> ShRaised h st (AttributeError ''append'')
           | None \<Rightarrow> ShRaised h st (AttributeError ''append''))
      | Some HNone \<Rightarrow> ShRaised h st (AttributeError ''append'')
      | Some (HBool b) \<Rightarrow> ShRaised h st (AttributeError ''append'')
      | Some (HInt i) \<Rightarrow> ShRaised h st (AttributeError ''append'')
      | Some (HStr s) \<Rightarrow> ShRaised h st (AttributeError ''append''))"

text \<open>\<^verbatim>\<open>return {"n": 1}\<close>.\<close>

definition count_one :: sh_tool_func where
  "count_one h st = ShReturned h st (Some [(''n'', HInt 1)])"

text \<open>The three tools, and two graphs over them.\<close>

definition list_registry :: sh_tool_registry where
  "list_registry = [''A'' \<mapsto> make_list, ''B'' \<mapsto> append_two, ''C'' \<mapsto> count_one]"

definition list_graph :: graph where
  "list_graph =
     \<lparr>graph_id = ''g'', nodes = [''A'', ''B''], start_node = ''A'',
      edges = [(''A'', [(''next'', VStr ''B'')])]\<rparr>"

definition count_graph :: graph where
  "count_graph =
     \<lparr>graph_id = ''g'', nodes = [''C'', ''A'', ''B''], start_node = ''C'',
      edges = [(''C'', [(''next'', VStr ''A'')]), (''A'', [(''next'', VStr ''B'')])]\<rparr>"

fun sh_outcome_run :: "sh_step_outcome \<Rightarrow> sh_run_record" where
  "sh_outcome_run (ShRaise r e) = r"
| "sh_outcome_run (ShBreak r) = r"
| "sh_outcome_run (ShNext r next_node) = r"

text \<open>A value that is a reference to a heap object.\<close>

fun is_ref :: "hval \<Rightarrow> bool" where
  "is_ref (HRef a) = True"
| "is_ref HNone = False"
| "is_ref (HBool b) = False"
| "is_ref (HInt i) = False"
| "is_ref (HStr s) = False"

section \<open>Properties\<close>

subsection \<open>Dictionaries\<close>

lemma dict_get_set: "dict_get (dict_set d k v) k' = (if k' = k then Some v else dict_get d k')"
  by (simp add: dict_get_def dict_set_def update_conv')

lemma keys_dict_set: "keys (dict_set d k v) = insert k (keys d)"
  by (simp add: keys_def dict_set_def dom_update)

lemma keys_Nil: "keys [] = {}"
  by (simp add: keys_def)

lemma keys_Cons: "keys ((k, v) # d) = insert k (keys d)"
  by (simp add: keys_def)

lemma keys_dict_update: "keys (dict_update d u) = keys d \<union> keys u"
  by (induction d u rule: dict_update.induct) (auto simp: keys_dict_set keys_Nil keys_Cons)

lemma dict_get_update_notin: "k \<notin> keys u \<Longrightarrow> dict_get (dict_update d u) k = dict_get d k"
proof (induction d u rule: dict_update.induct)
  case (1 d)
  show ?case by simp
next
  case (2 d k' v u)
  then show ?case by (simp add: dict_get_set keys_Cons)
qed

lemma dict_get_update_in:
  "wf_dict u \<Longrightarrow> dict_get u k = Some v \<Longrightarrow> dict_get (dict_update d u) k = Some v"
proof (induction d u rule: dict_update.induct)
  case (1 d)
  then show ?case by (simp add: dict_get_def)
next
  case (2 d k' v' u)
  show ?case
  proof (cases "k = k'")
    case True
    with 2 have "k \<notin> keys u" and "v' = v"
      by (auto simp: wf_dict_def keys_def dict_get_def)
    then show ?thesis using True
      by (simp add: dict_get_update_notin dict_get_set)
  next
    case False
    with 2 show ?thesis by (simp add: wf_dict_def dict_get_def)
  qed
qed

lemma wf_dict_set: "wf_dict d \<Longrightarrow> wf_dict (dict_set d k v)"
  by (simp add: wf_dict_def dict_set_def distinct_update)

lemma wf_dict_update: "wf_dict d \<Longrightarrow> wf_dict (dict_update d u)"
  by (induction d u rule: dict_update.induct) (simp_all add: wf_dict_set)

subsection \<open>The loop\<close>

lemma reaches_loop:
  "reaches g reg c c' \<Longrightarrow>
   execute_loop g reg (fst c) (fst (snd c)) (snd (snd c)) =
   execute_loop g reg (fst c') (fst (snd c')) (snd (snd c'))"
proof (induction rule: reaches.induct)
  case (reaches_refl)
  show ?case by simp
next
  case (reaches_step c run current steps run' next_node)
  have "execute_loop g reg run current steps = execute_loop g reg run' next_node (steps + 1)"
    using reaches_step.hyps(2,3,4) by (subst execute_loop.simps) simp
  with reaches_step.IH show ?case by simp
qed

lemma run_graph_at:
  assumes "dict_get (graphs eng) gid = Some g"
    and "reaches g (tool_registry eng) (initial_config uuid4 eng gid g initial_state)
           (run, current, steps)"
  shows "fst (run_graph uuid4 eng gid initial_state) =
           Inr (finish_run (execute_loop g (tool_registry eng) run current steps))"
  using assms(1) reaches_loop [OF assms(2)]
  by (simp add: run_graph_def Let_def execute_run_def initial_config_def)

lemma execute_step_returned:
  assumes "reg name = Some tool" and "tool (state run) = Returned st ret"
  shows "execute_step g reg run (VStr name) =
           (case resolve_next_node (edge_cfg_of g name) (dict_update st (or_empty ret)) of
              Inl e \<Rightarrow> Raise (after_merge run (VStr name) (dict_update st (or_empty ret))) e
            | Inr next_node \<Rightarrow>
                if \<not> truthy next_node \<or> next_node = VStr ''end''
                then Break (after_merge run (VStr name) (dict_update st (or_empty ret)))
                else Next (after_merge run (VStr name) (dict_update st (or_empty ret))) next_node)"
  using assms
  by (simp add: execute_step_def Let_def edge_cfg_of_def after_merge_def or_empty_def
           split: sum.splits)


lemma execute_loop_break:
  "truthy current \<Longrightarrow> steps < max_steps \<Longrightarrow> execute_step g reg run current = Break r \<Longrightarrow>
   execute_loop g reg run current steps = (r, None)"
  by (subst execute_loop.simps) simp

lemma resolve_conditional:
  assumes "dict_get cfg ''condition_key'' = Some (VStr k)"
  shows "resolve_next_node cfg st =
           (if truthy (get_or_none st k)
            then (case dict_get cfg ''on_true'' of
                    None \<Rightarrow> Inl (MissingKey ''on_true'') | Some t \<Rightarrow> Inr t)
            else (case dict_get cfg ''on_false'' of
                    None \<Rightarrow> Inl (MissingKey ''on_false'') | Some f \<Rightarrow> Inr f))"
proof -
  from assms have "cfg \<noteq> []" by (auto simp: dict_get_def)
  with assms show ?thesis
    by (simp add: resolve_next_node_def get_or_none_def Let_def split: option.splits)
qed

subsection \<open>Evaluating the samples\<close>

lemmas sample_defs = engine_with_def single_node_def sample_registry_def register_def
  initial_config_def new_run_def sample_uuid4_def set_ready_def no_op_def

subsection \<open>Branching on the merged state\<close>

text \<open>
  Claim C1. At every step of every run whose tool returns, the pass resolves the edge on
  the state after the merge, \<open>post\<close>: its outcome is the one edge resolution on \<open>post\<close>
  gives, and the flag of a conditional rule on \<open>k\<close> is the truth value of what \<open>post\<close>
  holds under \<open>k\<close>. In particular, if the update \<open>u\<close> returned by the tool holds a truthy
  value under \<open>k\<close> and the rule is conditional on \<open>k\<close> with \<open>on_true = t\<close>, edge resolution
  yields \<open>t\<close> in that same step, whatever the state held under \<open>k\<close> before; with
  \<open>t = "end"\<close> the run ends there and is completed.
\<close>

theorem post_merge_branching:
  assumes found: "dict_get (graphs eng) gid = Some g"
    and reach: "reaches g (tool_registry eng) (initial_config uuid4 eng gid g initial_state)
                  (run, VStr name, steps)"
    and guard: "name \<noteq> []" "steps < max_steps"
    and tool: "tool_registry eng name = Some tool" "tool (state run) = Returned st ret"
    and post: "post = dict_update st (or_empty ret)"
  shows "execute_step g (tool_registry eng) run (VStr name) =
           (case resolve_next_node (edge_cfg_of g name) post of
              Inl e \<Rightarrow> Raise (after_merge run (VStr name) post) e
            | Inr next_node \<Rightarrow>
                if \<not> truthy next_node \<or> next_node = VStr ''end''
                then Break (after_merge run (VStr name) post)
                else Next (after_merge run (VStr name) post) next_node)
         \<and> (dict_get (edge_cfg_of g name) ''condition_key'' = Some (VStr k) \<longrightarrow>
              resolve_next_node (edge_cfg_of g name) post =
                (if truthy (get_or_none post k)
                 then (case dict_get (edge_cfg_of g name) ''on_true'' of
                         None \<Rightarrow> Inl (MissingKey ''on_true'') | Some t \<Rightarrow> Inr t)
                 else (case dict_get (edge_cfg_of g name) ''on_false'' of
                         None \<Rightarrow> Inl (MissingKey ''on_false'') | Some f \<Rightarrow> Inr f)))
         \<and> (ret = Some u \<and> wf_dict u \<and> dict_get u k = Some v \<and> truthy v \<and>
            dict_get (edge_cfg_of g name) ''condition_key'' = Some (VStr k) \<and>
            dict_get (edge_cfg_of g name) ''on_true'' = Some t \<longrightarrow>
              resolve_next_node (edge_cfg_of g name) (dict_update st u) = Inr t \<and>
              execute_step g (tool_registry eng) run (VStr name) =
                (if \<not> truthy t \<or> t = VStr ''end''
                 then Break (after_merge run (VStr name) (dict_update st u))
                 else Next (after_merge run (VStr name) (dict_update st u)) t) \<and>
              (t = VStr ''end'' \<longrightarrow>
                 fst (run_graph uuid4 eng gid initial_state) =
                   Inr ((after_merge run (VStr name) (dict_update st u))
                          \<lparr>status := ''completed'', current_node := VNone\<rparr>)))"
proof -
  have step: "execute_step g (tool_registry eng) run (VStr name) =
           (case resolve_next_node (edge_cfg_of g name) post of
              Inl e \<Rightarrow> Raise (after_merge run (VStr name) post) e
            | Inr next_node \<Rightarrow>
                if \<not> truthy next_node \<or> next_node = VStr ''end''
                then Break (after_merge run (VStr name) post)
                else Next (after_merge run (VStr name) post) next_node)"
    unfolding post using tool by (rule execute_step_returned)
  have cond: "resolve_next_node (edge_cfg_of g name) post =
                (if truthy (get_or_none post k)
                 then (case dict_get (edge_cfg_of g name) ''on_true'' of
                         None \<Rightarrow> Inl (MissingKey ''on_true'') | Some t \<Rightarrow> Inr t)
                 else (case dict_get (edge_cfg_of g name) ''on_false'' of
                         None \<Rightarrow> Inl (MissingKey ''on_false'') | Some f \<Rightarrow> Inr f))"
    if "dict_get (edge_cfg_of g name) ''condition_key'' = Some (VStr k)"
    using that by (rule resolve_conditional)
  have part: "resolve_next_node (edge_cfg_of g name) (dict_update st u) = Inr t \<and>
              execute_step g (tool_registry eng) run (VStr name) =
                (if \<not> truthy t \<or> t = VStr ''end''
                 then Break (after_merge run (VStr name) (dict_update st u))
                 else Next (after_merge run (VStr name) (dict_update st u)) t) \<and>
              (t = VStr ''end'' \<longrightarrow>
                 fst (run_graph uuid4 eng gid initial_state) =
                   Inr ((after_merge run (VStr name) (dict_update st u))
                          \<lparr>status := ''completed'', current_node := VNone\<rparr>))"
    if h: "ret = Some u \<and> wf_dict u \<and> dict_get u k = Some v \<and> truthy v \<and>
           dict_get (edge_cfg_of g name) ''condition_key'' = Some (VStr k) \<and>
           dict_get (edge_cfg_of g name) ''on_true'' = Some t"
  proof -
    from h have p: "post = dict_update st u" by (simp add: post or_empty_def)
    from h have "dict_get (dict_update st u) k = Some v"
      by (simp add: dict_get_update_in)
    with h cond p have res: "resolve_next_node (edge_cfg_of g name) (dict_update st u) = Inr t"
      by (simp add: get_or_none_def)
    with step p have s: "execute_step g (tool_registry eng) run (VStr name) =
                (if \<not> truthy t \<or> t = VStr ''end''
                 then Break (after_merge run (VStr name) (dict_update st u))
                 else Next (after_merge run (VStr name) (dict_update st u)) t)"
      by simp
    have "fst (run_graph uuid4 eng gid initial_state) =
            Inr ((after_merge run (VStr name) (dict_update st u))
                   \<lparr>status := ''completed'', current_node := VNone\<rparr>)"
      if "t = VStr ''end''"
    proof -
      from that s guard have "execute_loop g (tool_registry eng) run (VStr name) steps =
          (after_merge run (VStr name) (dict_update st u), None)"
        by (simp add: execute_loop_break)
      with run_graph_at [OF found reach] show ?thesis
        by (simp add: finish_run_def)
    qed
    with res s show ?thesis by blast
  qed
  from step cond part show ?thesis by blast
qed

text \<open>
  Two runs. The node \<open>X\<close> returns \<^verbatim>\<open>{"ready": True}\<close> on an empty state, and its rule sends
  a false flag back to \<open>X\<close>: the run ends after that one step. The node \<open>loop\<close> returns
  \<^verbatim>\<open>None\<close> on a state that holds \<open>ready\<close> already: the flag is read from the merged state,
  not from the update, and the pass ends at \<^verbatim>\<open>break\<close>.
\<close>

theorem post_merge_branching_witness:
  "fst (run_graph sample_uuid4 (engine_with (single_node ''X'' ready_gate)) ''g'' []) =
     Inr \<lparr>run_id = ''u'', of_graph = ''g'', status = ''completed'', current_node = VNone,
          state = [(''ready'', VBool True)],
          log = [\<lparr>node = VStr ''X'', snapshot = [(''ready'', VBool True)]\<rparr>],
          error_message = None\<rparr>
   \<and> execute_step (single_node ''loop'' loop_gate) sample_registry
        (new_run ''u'' ''g'' (single_node ''loop'' loop_gate) [(''ready'', VBool True)])
        (VStr ''loop'') =
      Break \<lparr>run_id = ''u'', of_graph = ''g'', status = ''running'',
             current_node = VStr ''loop'', state = [(''ready'', VBool True)],
             log = [\<lparr>node = VStr ''loop'', snapshot = [(''ready'', VBool True)]\<rparr>],
             error_message = None\<rparr>"
proof
  let ?g = "single_node ''X'' ready_gate"
  let ?eng = "engine_with ?g"
  have found: "dict_get (graphs ?eng) ''g'' = Some ?g"
    by (simp add: engine_with_def dict_get_def)
  have reach: "reaches ?g (tool_registry ?eng) (initial_config sample_uuid4 ?eng ''g'' ?g [])
                 (new_run ''u'' ''g'' ?g [], VStr ''X'', 0)"
    by (simp add: sample_defs reaches_refl)
  have tool: "tool_registry ?eng ''X'' = Some set_ready"
    "set_ready (state (new_run ''u'' ''g'' ?g [])) = Returned [] (Some [(''ready'', VBool True)])"
    by (simp_all add: sample_defs)
  have post: "[(''ready'', VBool True)] = dict_update [] (or_empty (Some [(''ready'', VBool True)]))"
    by (simp add: or_empty_def dict_set_def)
  have upd: "wf_dict [(''ready'', VBool True)]"
    "dict_get [(''ready'', VBool True)] ''ready'' = Some (VBool True)" "truthy (VBool True)"
    by (simp_all add: wf_dict_def dict_get_def)
  have rule: "dict_get (edge_cfg_of ?g ''X'') ''condition_key'' = Some (VStr ''ready'')"
    "dict_get (edge_cfg_of ?g ''X'') ''on_true'' = Some (VStr ''end'')"
    by (simp_all add: edge_cfg_of_def single_node_def dict_get_def ready_gate_def)
  from post_merge_branching [OF found reach _ _ tool post,
      where u = "[(''ready'', VBool True)]" and k = "''ready''" and v = "VBool True"
        and t = "VStr ''end''"] upd rule
  show "fst (run_graph sample_uuid4 ?eng ''g'' []) =
     Inr \<lparr>run_id = ''u'', of_graph = ''g'', status = ''completed'', current_node = VNone,
          state = [(''ready'', VBool True)],
          log = [\<lparr>node = VStr ''X'', snapshot = [(''ready'', VBool True)]\<rparr>],
          error_message = None\<rparr>"
    by (simp add: max_steps_def after_merge_def new_run_def single_node_def dict_set_def)
next
  let ?g = "single_node ''loop'' loop_gate"
  let ?eng = "engine_with ?g"
  let ?st = "[(''ready'', VBool True)]"
  have found: "dict_get (graphs ?eng) ''g'' = Some ?g"
    by (simp add: engine_with_def dict_get_def)
  have reach: "reaches ?g (tool_registry ?eng) (initial_config sample_uuid4 ?eng ''g'' ?g ?st)
                 (new_run ''u'' ''g'' ?g ?st, VStr ''loop'', 0)"
    by (simp add: sample_defs reaches_refl)
  have tool: "tool_registry ?eng ''loop'' = Some no_op"
    "no_op (state (new_run ''u'' ''g'' ?g ?st)) = Returned ?st None"
    by (simp_all add: sample_defs)
  have post: "?st = dict_update ?st (or_empty None)"
    by (simp add: or_empty_def)
  have reg: "tool_registry ?eng = sample_registry" by (simp add: engine_with_def)
  have res: "resolve_next_node (edge_cfg_of ?g ''loop'') ?st = Inr (VStr ''end'')"
    by (simp add: edge_cfg_of_def single_node_def dict_get_def loop_gate_def
          resolve_next_node_def)
  from post_merge_branching [OF found reach _ _ tool post, THEN conjunct1] res
  have "execute_step ?g (tool_registry ?eng) (new_run ''u'' ''g'' ?g ?st) (VStr ''loop'') =
          Break (after_merge (new_run ''u'' ''g'' ?g ?st) (VStr ''loop'') ?st)"
    by (simp add: max_steps_def)
  then show "execute_step ?g sample_registry (new_run ''u'' ''g'' ?g ?st) (VStr ''loop'') =
      Break \<lparr>run_id = ''u'', of_graph = ''g'', status = ''running'',
             current_node = VStr ''loop'', state = ?st,
             log = [\<lparr>node = VStr ''loop'', snapshot = ?st\<rparr>],
             error_message = None\<rparr>"
    unfolding reg by (simp add: after_merge_def new_run_def)
qed

lemmas run_defs = run_graph_def execute_run_def execute_loop.simps execute_step_def
  resolve_next_node_def finish_run_def Let_def dict_get_def dict_set_def max_steps_def

subsection \<open>A conditional rule that lacks a branch\<close>




subsection \<open>The current node of a finished run\<close>

lemma execute_step_raise_current:
  "execute_step g reg run current = Raise r e \<Longrightarrow> current_node r = current"
  by (auto simp: execute_step_def Let_def split: sum.splits tool_result.splits if_splits)

lemma execute_loop_raise_reaches:
  "execute_loop g reg run current steps = (r, Some e) \<Longrightarrow>
   reaches g reg c (run, current, steps) \<Longrightarrow>
   \<exists>run' current' steps'.
      reaches g reg c (run', current', steps') \<and> truthy current' \<and> steps' < max_steps \<and>
      execute_step g reg run' current' = Raise r e"
proof (induction g reg run current steps rule: execute_loop.induct)
  case (1 g reg run current steps)
  note loop = "1.prems"(1) and reach = "1.prems"(2)
  show ?case
  proof (cases "truthy current \<and> steps < max_steps")
    case False
    with loop show ?thesis by (subst (asm) execute_loop.simps) simp
  next
    case True
    show ?thesis
    proof (cases "execute_step g reg run current")
      case (Raise r' e')
      with True loop have "r' = r" "e' = e"
        by (subst (asm) execute_loop.simps, simp)+
      with Raise True reach show ?thesis by blast
    next
      case (Break r')
      with True loop show ?thesis
        by (subst (asm) execute_loop.simps) simp
    next
      case (Next r' nxt)
      with True loop have l: "execute_loop g reg r' nxt (steps + 1) = (r, Some e)"
        by (subst (asm) execute_loop.simps) simp
      from True have "truthy current" "steps < max_steps" by simp_all
      with reach have "reaches g reg c (r', nxt, steps + 1)"
        using Next by (rule reaches_step)
      from "1.IH" [OF True Next l this] show ?thesis .
    qed
  qed
qed

text \<open>
  Claim C3 says that \<^verbatim>\<open>current_node\<close> is \<^verbatim>\<open>None\<close> in every finished run, also in one
  that ended with status \<open>error\<close>. The node \<open>Y\<close> has no tool: the run ends with status
  \<open>error\<close> and \<^verbatim>\<open>current_node\<close> still names \<open>Y\<close>.
\<close>

theorem error_keeps_current_node_counterexample:
  "fst (run_graph sample_uuid4 (engine_with (single_node ''Y'' [])) ''g'' []) =
     Inr \<lparr>run_id = ''u'', of_graph = ''g'', status = ''error'', current_node = VStr ''Y'',
          state = [], log = [], error_message = Some (ToolNotRegistered (VStr ''Y''))\<rparr>"
  by (simp add: run_defs sample_defs)

text \<open>
  Claim C3, amended. Every run record that \<^verbatim>\<open>run_graph\<close> returns is completed or in
  error. A completed run has \<^verbatim>\<open>current_node = None\<close>. The \<^verbatim>\<open>except\<close> branch assigns the
  status and the message only: a run in error is the record that the raising pass left,
  and its \<^verbatim>\<open>current_node\<close> is the node of that pass, never \<^verbatim>\<open>None\<close>.
\<close>

theorem terminal_current_node:
  assumes found: "dict_get (graphs eng) gid = Some g"
    and final: "fst (run_graph uuid4 eng gid initial_state) = Inr r"
  shows "(status r = ''completed'' \<or> status r = ''error'')
         \<and> (status r = ''completed'' \<longrightarrow> current_node r = VNone)
         \<and> (status r = ''error'' \<longrightarrow>
              current_node r \<noteq> VNone \<and>
              (\<exists>run current steps r' e.
                 reaches g (tool_registry eng) (initial_config uuid4 eng gid g initial_state)
                   (run, current, steps) \<and>
                 truthy current \<and> steps < max_steps \<and>
                 execute_step g (tool_registry eng) run current = Raise r' e \<and>
                 r = r'\<lparr>status := ''error'', error_message := Some e\<rparr> \<and>
                 current_node r = current))"
proof -
  let ?c = "initial_config uuid4 eng gid g initial_state"
  let ?run = "new_run (uuid4 (uuid_calls eng)) gid g initial_state"
  define res where "res = execute_loop g (tool_registry eng) ?run (VStr (start_node g)) 0"
  from found final have r: "r = finish_run res"
    by (simp add: run_graph_def Let_def res_def execute_run_def)
  obtain r' x where res: "res = (r', x)" by (cases res)
  show ?thesis
  proof (cases x)
    case None
    with r res show ?thesis by (simp add: finish_run_def)
  next
    case (Some e)
    have "reaches g (tool_registry eng) ?c (?run, VStr (start_node g), 0)"
      by (simp add: initial_config_def reaches_refl)
    with res Some execute_loop_raise_reaches [of g "tool_registry eng" ?run "VStr (start_node g)" 0 r' e ?c]
    obtain run current steps where
      a: "reaches g (tool_registry eng) ?c (run, current, steps)"
      and b: "truthy current" "steps < max_steps"
      and c: "execute_step g (tool_registry eng) run current = Raise r' e"
      unfolding res_def by blast
    from c have d: "current_node r' = current" by (rule execute_step_raise_current)
    from r res Some have e: "r = r'\<lparr>status := ''error'', error_message := Some e\<rparr>"
      by (simp add: finish_run_def)
    from e d have f: "current_node r = current" by simp
    with a b c e have "\<exists>run current steps r' e.
                 reaches g (tool_registry eng) ?c (run, current, steps) \<and>
                 truthy current \<and> steps < max_steps \<and>
                 execute_step g (tool_registry eng) run current = Raise r' e \<and>
                 r = r'\<lparr>status := ''error'', error_message := Some e\<rparr> \<and>
                 current_node r = current"
      by blast
    moreover from f b have "current_node r \<noteq> VNone" by auto
    moreover from e have "status r = ''error''" by simp
    ultimately show ?thesis by simp
  qed
qed

theorem terminal_current_node_witness:
  "(case fst (run_graph sample_uuid4 (engine_with (single_node ''X'' ready_gate)) ''g'' []) of
      Inl e \<Rightarrow> False
    | Inr r \<Rightarrow> status r = ''completed'' \<and> current_node r = VNone)"
proof -
  have found: "dict_get (graphs (engine_with (single_node ''X'' ready_gate))) ''g'' =
                 Some (single_node ''X'' ready_gate)"
    by (simp add: engine_with_def dict_get_def)
  have run: "fst (run_graph sample_uuid4 (engine_with (single_node ''X'' ready_gate)) ''g'' []) =
     Inr \<lparr>run_id = ''u'', of_graph = ''g'', status = ''completed'', current_node = VNone,
          state = [(''ready'', VBool True)],
          log = [\<lparr>node = VStr ''X'', snapshot = [(''ready'', VBool True)]\<rparr>],
          error_message = None\<rparr>"
    by (simp add: run_defs sample_defs ready_gate_def)
  from terminal_current_node [OF found run] show ?thesis
    unfolding run by simp
qed

subsection \<open>The step cap\<close>

lemma execute_step_next_log:
  "execute_step g reg run current = Next r nxt \<Longrightarrow>
   log r = log run @ [\<lparr>node = current, snapshot = state r\<rparr>]"
  by (auto simp: execute_step_def Let_def split: sum.splits tool_result.splits if_splits)

lemma execute_step_break_log:
  "execute_step g reg run current = Break r \<Longrightarrow>
   log r = log run @ [\<lparr>node = current, snapshot = state r\<rparr>]"
  by (auto simp: execute_step_def Let_def split: sum.splits tool_result.splits if_splits)

lemma execute_step_raise_log:
  "execute_step g reg run current = Raise r e \<Longrightarrow>
   log r = log run \<or> log r = log run @ [\<lparr>node = current, snapshot = state r\<rparr>]"
  by (auto simp: execute_step_def Let_def split: sum.splits tool_result.splits if_splits)

lemma execute_loop_log_bound:
  "execute_loop g reg run current steps = (r, x) \<Longrightarrow> steps \<le> max_steps \<Longrightarrow>
   length (log r) \<le> length (log run) + (max_steps - steps)"
proof (induction g reg run current steps rule: execute_loop.induct)
  case (1 g reg run current steps)
  show ?case
  proof (cases "truthy current \<and> steps < max_steps")
    case False
    with "1.prems" show ?thesis by (subst (asm) execute_loop.simps) auto
  next
    case True
    show ?thesis
    proof (cases "execute_step g reg run current")
      case (Raise r' e')
      with True "1.prems" have "r' = r"
        by (subst (asm) execute_loop.simps) simp
      with Raise True execute_step_raise_log [of g reg run current r e'] show ?thesis
        by auto
    next
      case (Break r')
      with True "1.prems" have "r' = r"
        by (subst (asm) execute_loop.simps) simp
      with Break True execute_step_break_log [of g reg run current r] show ?thesis
        by auto
    next
      case (Next r' nxt)
      with True "1.prems" have "execute_loop g reg r' nxt (steps + 1) = (r, x)"
        by (subst (asm) execute_loop.simps) simp
      with "1.IH" [OF True Next] True
      have "length (log r) \<le> length (log r') + (max_steps - (steps + 1))" by simp
      moreover from execute_step_next_log [OF Next]
      have "length (log r') = length (log run) + 1" by simp
      moreover from True have "steps < max_steps" by simp
      ultimately show ?thesis by arith
    qed
  qed
qed

lemma execute_loop_never_stops:
  assumes inv: "\<And>run current. I current (state run) \<Longrightarrow>
                  truthy current \<and>
                  (\<exists>run' nxt. execute_step g reg run current = Next run' nxt \<and> I nxt (state run'))"
  shows "I current (state run) \<Longrightarrow> steps \<le> max_steps \<Longrightarrow>
         \<exists>r. execute_loop g reg run current steps = (r, None) \<and>
             length (log r) = length (log run) + (max_steps - steps)"
proof (induction "max_steps - steps" arbitrary: run current steps)
  case 0
  then show ?case by (subst execute_loop.simps) simp
next
  case (Suc n)
  from inv [OF Suc.prems(1)] obtain run' nxt where
    t: "truthy current" and s: "execute_step g reg run current = Next run' nxt"
    and i: "I nxt (state run')"
    by blast
  from Suc.hyps(2) have lt: "steps < max_steps" and n: "n = max_steps - (steps + 1)" by auto
  from Suc.hyps(1) [OF n i] lt obtain r where
    r: "execute_loop g reg run' nxt (steps + 1) = (r, None)"
    and l: "length (log r) = length (log run') + (max_steps - (steps + 1))"
    by auto
  from t lt s r have "execute_loop g reg run current steps = (r, None)"
    by (subst execute_loop.simps) simp
  moreover from execute_step_next_log [OF s]
  have "length (log run') = length (log run) + 1" by simp
  with l lt have "length (log r) = length (log run) + (max_steps - steps)" by arith
  ultimately show ?case by blast
qed

text \<open>
  Claim C4. \<^verbatim>\<open>max_steps\<close> is 1000 and no run logs more than 1000 node executions. If
  routing never stops by itself, that is, if some property \<open>I\<close> of the current node and
  the state holds at the start and every pass from a configuration with \<open>I\<close> returns a
  successor that is neither absent nor \<open>"end"\<close> and re-establishes \<open>I\<close>, then the run
  ends with exactly 1000 log entries and status \<open>completed\<close>.
\<close>

theorem step_cap:
  assumes found: "dict_get (graphs eng) gid = Some g"
    and r: "fst (run_graph uuid4 eng gid initial_state) = Inr r"
  shows "max_steps = 1000 \<and> length (log r) \<le> max_steps \<and>
         ((\<exists>I. I (VStr (start_node g)) initial_state \<and>
               (\<forall>run current. I current (state run) \<longrightarrow>
                  truthy current \<and>
                  (\<exists>run' nxt. execute_step g (tool_registry eng) run current = Next run' nxt \<and>
                              I nxt (state run')))) \<longrightarrow>
          status r = ''completed'' \<and> length (log r) = max_steps)"
proof -
  let ?run = "new_run (uuid4 (uuid_calls eng)) gid g initial_state"
  let ?loop = "execute_loop g (tool_registry eng) ?run (VStr (start_node g)) 0"
  from found r have fin: "r = finish_run ?loop"
    by (simp add: run_graph_def Let_def execute_run_def)
  obtain r' x where loop: "?loop = (r', x)" by (cases ?loop)
  from fin loop have logr: "log r = log r'"
    by (cases x) (simp_all add: finish_run_def)
  from execute_loop_log_bound [OF loop] have "length (log r') \<le> max_steps"
    by (simp add: new_run_def)
  with logr have bound: "length (log r) \<le> max_steps" by simp
  have "status r = ''completed'' \<and> length (log r) = max_steps"
    if "\<exists>I. I (VStr (start_node g)) initial_state \<and>
               (\<forall>run current. I current (state run) \<longrightarrow>
                  truthy current \<and>
                  (\<exists>run' nxt. execute_step g (tool_registry eng) run current = Next run' nxt \<and>
                              I nxt (state run')))"
  proof -
    from that obtain I where i0: "I (VStr (start_node g)) initial_state"
      and inv: "\<And>run current. I current (state run) \<Longrightarrow>
                  truthy current \<and>
                  (\<exists>run' nxt. execute_step g (tool_registry eng) run current = Next run' nxt \<and>
                              I nxt (state run'))"
      by blast
    from i0 have "I (VStr (start_node g)) (state ?run)" by (simp add: new_run_def)
    from execute_loop_never_stops [of I g "tool_registry eng", OF inv this, of 0] loop
    have "x = None" and "length (log r') = max_steps"
      by (simp_all add: new_run_def)
    with fin loop logr show ?thesis by (simp add: finish_run_def)
  qed
  with bound show ?thesis by (auto simp: max_steps_def)
qed

text \<open>A single node with an unconditional edge to itself, whose tool returns \<^verbatim>\<open>None\<close>.\<close>

theorem step_cap_witness:
  "(case fst (run_graph sample_uuid4 (engine_with (single_node ''loop'' self_loop)) ''g'' []) of
      Inl e \<Rightarrow> False
    | Inr r \<Rightarrow> status r = ''completed'' \<and> length (log r) = 1000)"
proof -
  let ?g = "single_node ''loop'' self_loop"
  let ?eng = "engine_with ?g"
  have found: "dict_get (graphs ?eng) ''g'' = Some ?g"
    by (simp add: engine_with_def dict_get_def)
  obtain r where r: "fst (run_graph sample_uuid4 ?eng ''g'' []) = Inr r"
    using found by (simp add: run_graph_def Let_def)
  have "\<exists>I. I (VStr (start_node ?g)) [] \<and>
               (\<forall>run current. I current (state run) \<longrightarrow>
                  truthy current \<and>
                  (\<exists>run' nxt. execute_step ?g (tool_registry ?eng) run current = Next run' nxt \<and>
                              I nxt (state run')))"
    by (rule exI [of _ "\<lambda>current st. current = VStr ''loop''"])
       (simp add: execute_step_def resolve_next_node_def Let_def dict_get_def sample_defs
          self_loop_def)
  with step_cap [OF found r] show ?thesis
    unfolding r by (simp add: max_steps_def)
qed

subsection \<open>A successor that is falsy\<close>

text \<open>
  Claim C10. If edge resolution yields a successor that is falsy, for instance the empty
  string, which is neither \<^verbatim>\<open>None\<close> nor \<open>"end"\<close>, the pass ends at \<^verbatim>\<open>break\<close>, the loop
  returns without an exception, and the run is completed with \<^verbatim>\<open>current_node = None\<close>, its
  state and log as they stood after the merge.
\<close>

theorem falsy_successor_stops:
  assumes found: "dict_get (graphs eng) gid = Some g"
    and reach: "reaches g (tool_registry eng) (initial_config uuid4 eng gid g initial_state)
                  (run, VStr name, steps)"
    and guard: "name \<noteq> []" "steps < max_steps"
    and tool: "tool_registry eng name = Some tool" "tool (state run) = Returned st ret"
    and post: "post = dict_update st (or_empty ret)"
    and res: "resolve_next_node (edge_cfg_of g name) post = Inr next_node"
    and falsy: "\<not> truthy next_node"
  shows "execute_step g (tool_registry eng) run (VStr name) =
           Break (after_merge run (VStr name) post)
         \<and> execute_loop g (tool_registry eng) run (VStr name) steps =
             (after_merge run (VStr name) post, None)
         \<and> fst (run_graph uuid4 eng gid initial_state) =
             Inr ((after_merge run (VStr name) post)
                    \<lparr>status := ''completed'', current_node := VNone\<rparr>)"
proof -
  from execute_step_returned [of "tool_registry eng" name tool run st ret g] tool post res falsy
  have step: "execute_step g (tool_registry eng) run (VStr name) =
                Break (after_merge run (VStr name) post)"
    by simp
  with guard have loop: "execute_loop g (tool_registry eng) run (VStr name) steps =
      (after_merge run (VStr name) post, None)"
    by (simp add: execute_loop_break)
  with run_graph_at [OF found reach]
  have "fst (run_graph uuid4 eng gid initial_state) =
          Inr ((after_merge run (VStr name) post)
                 \<lparr>status := ''completed'', current_node := VNone\<rparr>)"
    by (simp add: finish_run_def)
  with step loop show ?thesis by simp
qed

text \<open>A node whose linear rule names the empty string as its successor.\<close>

theorem falsy_successor_stops_witness:
  "resolve_next_node empty_next [] = Inr (VStr '''') \<and> VStr '''' \<noteq> VNone \<and>
   VStr '''' \<noteq> VStr ''end'' \<and>
   fst (run_graph sample_uuid4 (engine_with (single_node ''loop'' empty_next)) ''g'' []) =
     Inr \<lparr>run_id = ''u'', of_graph = ''g'', status = ''completed'', current_node = VNone,
          state = [], log = [\<lparr>node = VStr ''loop'', snapshot = []\<rparr>], error_message = None\<rparr>"
proof -
  let ?g = "single_node ''loop'' empty_next"
  let ?eng = "engine_with ?g"
  have found: "dict_get (graphs ?eng) ''g'' = Some ?g"
    by (simp add: engine_with_def dict_get_def)
  have reach: "reaches ?g (tool_registry ?eng) (initial_config sample_uuid4 ?eng ''g'' ?g [])
                 (new_run ''u'' ''g'' ?g [], VStr ''loop'', 0)"
    by (simp add: sample_defs reaches_refl)
  have tool: "tool_registry ?eng ''loop'' = Some no_op"
    "no_op (state (new_run ''u'' ''g'' ?g [])) = Returned [] None"
    by (simp_all add: sample_defs)
  have post: "[] = dict_update [] (or_empty None)"
    by (simp add: or_empty_def)
  have res: "resolve_next_node (edge_cfg_of ?g ''loop'') [] = Inr (VStr '''')"
    by (simp add: edge_cfg_of_def single_node_def dict_get_def empty_next_def
          resolve_next_node_def)
  have res': "resolve_next_node empty_next [] = Inr (VStr '''')"
    by (simp add: dict_get_def empty_next_def resolve_next_node_def)
  from falsy_successor_stops [OF found reach _ _ tool post res] res'
  show ?thesis
    by (simp add: max_steps_def after_merge_def new_run_def single_node_def)
qed

subsection \<open>Creating a graph\<close>

lemma inj_sample_uuid4: "inj sample_uuid4"
proof (rule injI)
  fix m n assume "sample_uuid4 m = sample_uuid4 n"
  then have "length (sample_uuid4 m) = length (sample_uuid4 n)" by simp
  then show "m = n" by (simp add: sample_uuid4_def)
qed

text \<open>
  Claim C6. If \<open>start\<close> is not among the nodes, \<^verbatim>\<open>create_graph\<close> raises \<^verbatim>\<open>ValueError\<close> and
  the engine, its graph store included, is left as it was. Otherwise it returns the next
  id of the id sequence, the store holds the new graph under that id and every other
  entry as before, and, the id sequence being free of repetitions, the id differs from
  every id issued earlier.
\<close>

theorem create_graph_validation:
  "(start \<notin> set ns \<longrightarrow>
      create_graph uuid4 eng ns start es =
        (Inl (ValueError ''start_node must be one of the nodes''), eng))
   \<and> (start \<in> set ns \<longrightarrow>
        fst (create_graph uuid4 eng ns start es) = Inr (uuid4 (uuid_calls eng)) \<and>
        dict_get (graphs (snd (create_graph uuid4 eng ns start es))) (uuid4 (uuid_calls eng)) =
          Some \<lparr>graph_id = uuid4 (uuid_calls eng), nodes = ns, start_node = start, edges = es\<rparr> \<and>
        (\<forall>k. k \<noteq> uuid4 (uuid_calls eng) \<longrightarrow>
           dict_get (graphs (snd (create_graph uuid4 eng ns start es))) k =
           dict_get (graphs eng) k) \<and>
        uuid_calls (snd (create_graph uuid4 eng ns start es)) = Suc (uuid_calls eng) \<and>
        (inj uuid4 \<longrightarrow> (\<forall>i < uuid_calls eng. uuid4 i \<noteq> uuid4 (uuid_calls eng))))"
proof (intro conjI impI allI)
  assume "start \<notin> set ns"
  then show "create_graph uuid4 eng ns start es =
        (Inl (ValueError ''start_node must be one of the nodes''), eng)"
    by (simp add: create_graph_def)
next
  assume "start \<in> set ns"
  then show "fst (create_graph uuid4 eng ns start es) = Inr (uuid4 (uuid_calls eng))"
    by (simp add: create_graph_def Let_def)
next
  assume "start \<in> set ns"
  then show "dict_get (graphs (snd (create_graph uuid4 eng ns start es))) (uuid4 (uuid_calls eng)) =
          Some \<lparr>graph_id = uuid4 (uuid_calls eng), nodes = ns, start_node = start, edges = es\<rparr>"
    by (simp add: create_graph_def Let_def dict_get_set)
next
  fix k assume "start \<in> set ns" "k \<noteq> uuid4 (uuid_calls eng)"
  then show "dict_get (graphs (snd (create_graph uuid4 eng ns start es))) k =
           dict_get (graphs eng) k"
    by (simp add: create_graph_def Let_def dict_get_set)
next
  assume "start \<in> set ns"
  then show "uuid_calls (snd (create_graph uuid4 eng ns start es)) = Suc (uuid_calls eng)"
    by (simp add: create_graph_def Let_def)
next
  fix i assume "inj uuid4" "i < uuid_calls eng"
  then show "uuid4 i \<noteq> uuid4 (uuid_calls eng)"
    by (auto dest: injD)
qed

text \<open>A start node outside the nodes, and one among them, on an engine that has issued one id.\<close>

theorem create_graph_validation_witness:
  "create_graph sample_uuid4 (engine_with (single_node ''X'' ready_gate)) [''A'', ''B''] ''C'' [] =
     (Inl (ValueError ''start_node must be one of the nodes''),
      engine_with (single_node ''X'' ready_gate))
   \<and> fst (create_graph sample_uuid4 (engine_with (single_node ''X'' ready_gate))
             [''A'', ''B''] ''B'' []) = Inr ''u''
   \<and> sample_uuid4 0 \<noteq> ''u''"
proof -
  let ?eng = "engine_with (single_node ''X'' ready_gate)"
  have calls: "uuid_calls ?eng = 1" by (simp add: engine_with_def)
  have no: "''C'' \<notin> set [''A'', ''B'']" and yes: "''B'' \<in> set [''A'', ''B'']" by simp_all
  from create_graph_validation [of "''C''" "[''A'', ''B'']" sample_uuid4 ?eng "[]"] no
  have a: "create_graph sample_uuid4 ?eng [''A'', ''B''] ''C'' [] =
     (Inl (ValueError ''start_node must be one of the nodes''), ?eng)"
    by blast
  from create_graph_validation [of "''B''" "[''A'', ''B'']" sample_uuid4 ?eng "[]"] yes
    inj_sample_uuid4
  have "fst (create_graph sample_uuid4 ?eng [''A'', ''B''] ''B'' []) = Inr (sample_uuid4 1)"
    and "\<forall>i < 1. sample_uuid4 i \<noteq> sample_uuid4 1"
    unfolding calls by blast+
  with a show ?thesis by (simp add: sample_uuid4_def)
qed

subsection \<open>A step that raises\<close>




subsection \<open>The log\<close>

lemma reaches_log_length:
  "reaches g reg c c' \<Longrightarrow>
   length (log (fst c')) + snd (snd c) = length (log (fst c)) + snd (snd c')"
proof (induction rule: reaches.induct)
  case reaches_refl
  show ?case by simp
next
  case (reaches_step c run current steps run' next_node)
  from execute_step_next_log [OF reaches_step.hyps(4)]
  have "length (log run') = length (log run) + 1" by simp
  with reaches_step.IH show ?case by simp
qed

text \<open>The two-step run of \<open>X\<close> and \<open>refine_summary\<close>, evaluated.\<close>

lemmas refine_defs = refine_summary_def py_split_def is_space_def slice_to_def get_or_none_def

lemma run_ready_then_refine:
  "fst (run_graph sample_uuid4 (engine_with ready_then_refine) ''g''
          [(''draft_summary'', VStr ''a b'')]) =
   Inr \<lparr>run_id = ''u'', of_graph = ''g'', status = ''completed'', current_node = VNone,
        state =
          [(''draft_summary'', VStr ''a b''), (''ready'', VBool True),
           (''final_summary'', VStr ''a b''), (''is_summary_short_enough'', VBool True),
           (''text'', VNone), (''chunk_size'', VNone), (''per_chunk_summary_words'', VNone),
           (''summary_limit_words'', VNone), (''chunks'', VNone), (''summaries'', VNone)],
        log =
          [\<lparr>node = VStr ''X'',
            snapshot = [(''draft_summary'', VStr ''a b''), (''ready'', VBool True)]\<rparr>,
           \<lparr>node = VStr ''refine_summary'',
            snapshot =
              [(''draft_summary'', VStr ''a b''), (''ready'', VBool True),
               (''final_summary'', VStr ''a b''), (''is_summary_short_enough'', VBool True),
               (''text'', VNone), (''chunk_size'', VNone), (''per_chunk_summary_words'', VNone),
               (''summary_limit_words'', VNone), (''chunks'', VNone), (''summaries'', VNone)]\<rparr>],
        error_message = None\<rparr>"
  by (simp add: run_defs sample_defs ready_then_refine_def refine_defs)

lemma ready_then_refine_start:
  "dict_get (graphs (engine_with ready_then_refine)) ''g'' = Some ready_then_refine"
  "reaches ready_then_refine (tool_registry (engine_with ready_then_refine))
     (initial_config sample_uuid4 (engine_with ready_then_refine) ''g'' ready_then_refine
        [(''draft_summary'', VStr ''a b'')])
     (new_run ''u'' ''g'' ready_then_refine [(''draft_summary'', VStr ''a b'')], VStr ''X'', 0)"
  "tool_registry (engine_with ready_then_refine) ''X'' = Some set_ready"
  "set_ready (state (new_run ''u'' ''g'' ready_then_refine [(''draft_summary'', VStr ''a b'')])) =
     Returned [(''draft_summary'', VStr ''a b'')] (Some [(''ready'', VBool True)])"
  by (simp_all add: sample_defs ready_then_refine_def dict_get_def reaches_refl)

subsection \<open>What \<^verbatim>\<open>refine_summary\<close> does to its argument\<close>

text \<open>
  Claim C8 says that no shipped tool changes the state dictionary it is given.
  \<^verbatim>\<open>refine_summary\<close> assigns \<^verbatim>\<open>state["final_summary"]\<close> and
  \<^verbatim>\<open>state["is_summary_short_enough"]\<close> on its argument before it returns a new dictionary:
  called on \<^verbatim>\<open>{"draft_summary": "a b"}\<close>, it leaves the argument with three keys.
\<close>

theorem refine_summary_writes_input:
  "refine_summary [(''draft_summary'', VStr ''a b'')] =
     Returned
       [(''draft_summary'', VStr ''a b''), (''final_summary'', VStr ''a b''),
        (''is_summary_short_enough'', VBool True)]
       (Some
         [(''text'', VNone), (''chunk_size'', VNone), (''per_chunk_summary_words'', VNone),
          (''summary_limit_words'', VNone), (''final_summary'', VStr ''a b''),
          (''is_summary_short_enough'', VBool True), (''chunks'', VNone),
          (''summaries'', VNone), (''draft_summary'', VStr ''a b'')])
   \<and> state_left (refine_summary [(''draft_summary'', VStr ''a b'')]) \<noteq>
       [(''draft_summary'', VStr ''a b'')]"
  by (simp add: refine_defs dict_get_def dict_set_def Let_def)

subsection \<open>Keys of the state\<close>

lemma registry_get_Inr:
  "registry_get reg current = Inr tool \<Longrightarrow> \<exists>n. current = VStr n \<and> reg n = Some tool"
  by (cases current) (auto split: option.splits)

lemma execute_step_keys:
  assumes nodel: "all_keep_keys reg"
  shows "keys (state run) \<subseteq> keys (state (outcome_run (execute_step g reg run current)))"
proof (cases "registry_get reg current")
  case (Inl e')
  then show ?thesis by (simp add: execute_step_def Let_def)
next
  case (Inr tool)
  then obtain n where n: "reg n = Some tool" by (auto dest: registry_get_Inr)
  with nodel have "keeps_keys tool" by (simp add: all_keep_keys_def)
  then have kk: "keys (state run) \<subseteq> keys (state_left (tool (state run)))"
    by (simp add: keeps_keys_def)
  show ?thesis
  proof (cases "tool (state run)")
    case (Raised st e')
    with kk have "keys (state run) \<subseteq> keys st" by simp
    with Inr Raised show ?thesis
      by (simp add: execute_step_def Let_def)
  next
    case (Returned st ret)
    with kk have "keys (state run) \<subseteq> keys st" by simp
    moreover from Inr Returned
    have "state (outcome_run (execute_step g reg run current)) = dict_update st (or_empty ret)"
      by (auto simp: execute_step_def Let_def or_empty_def split: sum.splits if_splits)
    ultimately show ?thesis by (auto simp: keys_dict_update)
  qed
qed

lemma execute_loop_keys:
  "all_keep_keys reg \<Longrightarrow> execute_loop g reg run current steps = (r, x) \<Longrightarrow>
         keys (state run) \<subseteq> keys (state r) \<and>
         (\<exists>ys. log r = log run @ ys \<and> (\<forall>en \<in> set ys. keys (state run) \<subseteq> keys (snapshot en)))"
proof (induction g reg run current steps rule: execute_loop.induct)
  case (1 g reg run current steps)
  note nd = "1.prems"(1)
  note loop = "1.prems"(2)
  show ?case
  proof (cases "truthy current \<and> steps < max_steps")
    case False
    with loop show ?thesis by (subst (asm) execute_loop.simps) auto
  next
    case True
    show ?thesis
    proof (cases "execute_step g reg run current")
      case (Raise r' e')
      with True loop have eq: "r' = r"
        by (subst (asm) execute_loop.simps) simp
      with Raise execute_step_keys [OF nd, of run g current]
      have "keys (state run) \<subseteq> keys (state r)" by simp
      with Raise eq execute_step_raise_log [of g reg run current r e'] show ?thesis
        by auto
    next
      case (Break r')
      with True loop have eq: "r' = r"
        by (subst (asm) execute_loop.simps) simp
      with Break execute_step_keys [OF nd, of run g current]
      have "keys (state run) \<subseteq> keys (state r)" by simp
      with Break eq execute_step_break_log [of g reg run current r] show ?thesis
        by auto
    next
      case (Next r' nxt)
      with True loop have l: "execute_loop g reg r' nxt (steps + 1) = (r, x)"
        by (subst (asm) execute_loop.simps) simp
      from Next execute_step_keys [OF nd, of run g current]
      have k: "keys (state run) \<subseteq> keys (state r')" by simp
      from "1.IH" [OF True Next nd l] obtain ys where
        a: "keys (state r') \<subseteq> keys (state r)" and b: "log r = log r' @ ys"
        and c: "\<forall>en \<in> set ys. keys (state r') \<subseteq> keys (snapshot en)"
        by blast
      from b execute_step_next_log [OF Next]
      have "log r = log run @ (\<lparr>node = current, snapshot = state r'\<rparr> # ys)" by simp
      moreover from k c
      have "\<forall>en \<in> set (\<lparr>node = current, snapshot = state r'\<rparr> # ys).
              keys (state run) \<subseteq> keys (snapshot en)"
        by auto
      ultimately show ?thesis using k a by blast
    qed
  qed
qed

lemma keeps_keys_refine_summary: "keeps_keys refine_summary"
  unfolding keeps_keys_def
proof
  fix s
  show "keys s \<subseteq> keys (state_left (refine_summary s))"
    by (auto simp: refine_summary_def Let_def keys_dict_set
             split: option.splits pyval.splits sum.splits)
qed

lemma keeps_keys_set_ready: "keeps_keys set_ready"
  by (simp add: keeps_keys_def set_ready_def)

lemma keeps_keys_no_op: "keeps_keys no_op"
  by (simp add: keeps_keys_def no_op_def)

lemma all_keep_keys_sample: "all_keep_keys sample_registry"
  by (auto simp: all_keep_keys_def sample_registry_def register_def keeps_keys_refine_summary
        keeps_keys_set_ready keeps_keys_no_op split: if_splits)

lemma execute_loop_keys_after_merge:
  assumes nodel: "all_keep_keys reg"
    and guard: "name \<noteq> []" "steps < max_steps"
    and tool: "reg name = Some tool" "tool (state run) = Returned st ret"
    and loop: "execute_loop g reg run (VStr name) steps = (r, x)"
  shows "keys (dict_update st (or_empty ret)) \<subseteq> keys (state r) \<and>
         (\<exists>ys. log r =
             log run @ [\<lparr>node = VStr name, snapshot = dict_update st (or_empty ret)\<rparr>] @ ys \<and>
             (\<forall>en \<in> set ys. keys (dict_update st (or_empty ret)) \<subseteq> keys (snapshot en)))"
proof -
  let ?post = "dict_update st (or_empty ret)"
  let ?am = "after_merge run (VStr name) ?post"
  have am: "log ?am = log run @ [\<lparr>node = VStr name, snapshot = ?post\<rparr>]" "state ?am = ?post"
    by (simp_all add: after_merge_def)
  note step = execute_step_returned [of reg name tool run st ret g, OF tool]
  show ?thesis
  proof (cases "execute_step g reg run (VStr name)")
    case (Raise r' e')
    with step have "r' = ?am" by (auto split: sum.splits if_splits)
    moreover from Raise guard loop have "r' = r"
      by (subst (asm) execute_loop.simps) simp
    ultimately show ?thesis using am by auto
  next
    case (Break r')
    with step have "r' = ?am" by (auto split: sum.splits if_splits)
    moreover from Break guard loop have "r' = r"
      by (subst (asm) execute_loop.simps) simp
    ultimately show ?thesis using am by auto
  next
    case (Next r' nxt)
    with step have eq: "r' = ?am" by (auto split: sum.splits if_splits)
    from Next guard loop have "execute_loop g reg r' nxt (steps + 1) = (r, x)"
      by (subst (asm) execute_loop.simps) simp
    from execute_loop_keys [OF nodel this] obtain ys where
      "keys (state r') \<subseteq> keys (state r)" "log r = log r' @ ys"
      "\<forall>en \<in> set ys. keys (state r') \<subseteq> keys (snapshot en)"
      by blast
    with eq am show ?thesis by auto
  qed
qed

text \<open>
  Claim C5. At every step of every run whose tool returns an update, the state after the
  pass is the merge of the update into the state dictionary: every key of the update
  holds the update's value, every other key holds what it held before, and the keys
  after the merge are the keys before together with those of the update, so the merge
  removes none. Hence, as long as no registered tool deletes a key from the dictionary
  it is handed, every key of the state stays: the keys present after this pass are
  present in every later log snapshot and in the state of the record that is returned.
\<close>

theorem merge_is_additive:
  assumes found: "dict_get (graphs eng) gid = Some g"
    and reach: "reaches g (tool_registry eng) (initial_config uuid4 eng gid g initial_state)
                  (run, VStr name, steps)"
    and guard: "name \<noteq> []" "steps < max_steps"
    and tool: "tool_registry eng name = Some tool" "tool (state run) = Returned st ret"
    and wf: "wf_dict (or_empty ret)"
    and post: "post = dict_update st (or_empty ret)"
    and final: "fst (run_graph uuid4 eng gid initial_state) = Inr r"
  shows "state (outcome_run (execute_step g (tool_registry eng) run (VStr name))) = post
         \<and> (\<forall>k v. dict_get (or_empty ret) k = Some v \<longrightarrow> dict_get post k = Some v)
         \<and> (\<forall>k. k \<notin> keys (or_empty ret) \<longrightarrow> dict_get post k = dict_get st k)
         \<and> keys post = keys st \<union> keys (or_empty ret)
         \<and> (all_keep_keys (tool_registry eng) \<longrightarrow>
              keys (state run) \<subseteq> keys post \<and>
              keys post \<subseteq> keys (state r) \<and>
              (\<forall>j. steps \<le> j \<and> j < length (log r) \<longrightarrow>
                 keys post \<subseteq> keys (snapshot (log r ! j))))"
proof (intro conjI allI impI)
  from execute_step_returned [of "tool_registry eng" name tool run st ret g, OF tool]
  show "state (outcome_run (execute_step g (tool_registry eng) run (VStr name))) = post"
    by (auto simp: post after_merge_def split: sum.splits)
next
  fix k v assume "dict_get (or_empty ret) k = Some v"
  with wf show "dict_get post k = Some v"
    by (simp add: post dict_get_update_in)
next
  fix k assume "k \<notin> keys (or_empty ret)"
  then show "dict_get post k = dict_get st k"
    by (simp add: post dict_get_update_notin)
next
  show "keys post = keys st \<union> keys (or_empty ret)"
    by (simp add: post keys_dict_update)
next
  assume nodel: "all_keep_keys (tool_registry eng)"
  with tool(1) have "keeps_keys tool" by (simp add: all_keep_keys_def)
  then have "keys (state run) \<subseteq> keys (state_left (tool (state run)))"
    by (simp add: keeps_keys_def)
  with tool(2) show "keys (state run) \<subseteq> keys post"
    by (auto simp: post keys_dict_update)
  from reaches_log_length [OF reach] have len: "length (log run) = steps"
    by (simp add: initial_config_def new_run_def)
  obtain r' x where loop: "execute_loop g (tool_registry eng) run (VStr name) steps = (r', x)"
    by (cases "execute_loop g (tool_registry eng) run (VStr name) steps")
  from run_graph_at [OF found reach] final loop have "r = finish_run (r', x)" by simp
  then have same: "log r = log r'" "state r = state r'"
    by (cases x; simp add: finish_run_def)+
  from execute_loop_keys_after_merge [OF nodel guard tool loop] same obtain ys where
    st: "keys post \<subseteq> keys (state r)"
    and lg: "log r = log run @ [\<lparr>node = VStr name, snapshot = post\<rparr>] @ ys"
    and ks: "\<forall>en \<in> set ys. keys post \<subseteq> keys (snapshot en)"
    unfolding post by auto
  from st show "keys post \<subseteq> keys (state r)" .
  fix j assume j: "steps \<le> j \<and> j < length (log r)"
  show "keys post \<subseteq> keys (snapshot (log r ! j))"
  proof (cases "j = steps")
    case True
    with lg len show ?thesis by (simp add: nth_append)
  next
    case False
    with j lg len have "log r ! j = ys ! (j - steps - 1)" and "j - steps - 1 < length ys"
      by (auto simp: nth_append nth_Cons')
    with ks show ?thesis by (metis nth_mem)
  qed
qed


text \<open>
  The first step of the two-step run merges \<open>ready\<close>; \<open>draft_summary\<close> keeps its value,
  and both keys are still there after \<open>refine_summary\<close> has run.
\<close>

theorem merge_is_additive_witness:
  "(case fst (run_graph sample_uuid4 (engine_with ready_then_refine) ''g''
                [(''draft_summary'', VStr ''a b'')]) of
      Inl e \<Rightarrow> False
    | Inr r \<Rightarrow>
        keys [(''draft_summary'', VStr ''a b''), (''ready'', VBool True)] \<subseteq> keys (state r) \<and>
        keys [(''draft_summary'', VStr ''a b''), (''ready'', VBool True)]
          \<subseteq> keys (snapshot (log r ! 1)) \<and>
        dict_get (dict_update [(''draft_summary'', VStr ''a b'')] [(''ready'', VBool True)])
          ''draft_summary'' = Some (VStr ''a b''))"
proof -
  note s = ready_then_refine_start
  let ?post = "[(''draft_summary'', VStr ''a b''), (''ready'', VBool True)]"
  have wf: "wf_dict (or_empty (Some [(''ready'', VBool True)]))"
    by (simp add: wf_dict_def or_empty_def)
  have post: "?post = dict_update [(''draft_summary'', VStr ''a b'')]
                        (or_empty (Some [(''ready'', VBool True)]))"
    by (simp add: or_empty_def dict_set_def)
  have nodel: "all_keep_keys (tool_registry (engine_with ready_then_refine))"
    by (simp add: engine_with_def all_keep_keys_sample)
  have notin: "''draft_summary'' \<notin> keys (or_empty (Some [(''ready'', VBool True)]))"
    by (simp add: or_empty_def keys_Cons keys_Nil)
  from merge_is_additive [OF s(1) s(2) _ _ s(3) s(4) wf post run_ready_then_refine] nodel notin
  show ?thesis
    unfolding run_ready_then_refine
    by (simp add: max_steps_def dict_get_def dict_set_def or_empty_def keys_Cons keys_Nil)
qed

subsection \<open>Log snapshots and shared values\<close>

lemmas sh_defs = sh_run_graph_def sh_new_run_def sh_finish_run_def sh_execute_loop.simps
  sh_execute_step_def sh_resolve_next_node_def Let_def dict_get_def dict_set_def max_steps_def
  list_registry_def list_graph_def count_graph_def make_list_def append_two_def count_one_def

lemma sh_reaches_loop:
  "sh_reaches g reg c c' \<Longrightarrow>
   sh_execute_loop g reg (fst c) (fst (snd c)) (snd (snd c)) =
   sh_execute_loop g reg (fst c') (fst (snd c')) (snd (snd c'))"
proof (induction rule: sh_reaches.induct)
  case (sh_reaches_refl)
  show ?case by simp
next
  case (sh_reaches_step c run current steps run' next_node)
  have "sh_execute_loop g reg run current steps = sh_execute_loop g reg run' next_node (steps + 1)"
    using sh_reaches_step.hyps(2,3,4) by (subst sh_execute_loop.simps) simp
  with sh_reaches_step.IH show ?case by simp
qed

lemma sh_execute_step_log:
  "sh_log (sh_outcome_run (sh_execute_step g reg run current)) = sh_log run \<or>
   (\<exists>st. sh_log (sh_outcome_run (sh_execute_step g reg run current)) =
           sh_log run @ [\<lparr>sh_node = current, sh_snapshot = st\<rparr>])"
  by (auto simp: sh_execute_step_def Let_def split: sum.splits sh_tool_result.splits)

lemma sh_execute_step_next_log:
  "sh_execute_step g reg run current = ShNext r nxt \<Longrightarrow>
   sh_log r = sh_log run @ [\<lparr>sh_node = current, sh_snapshot = sh_state r\<rparr>]"
  by (auto simp: sh_execute_step_def Let_def split: sum.splits sh_tool_result.splits if_splits)

lemma sh_execute_step_returned_log:
  assumes "reg name = Some tool" and "tool (sh_heap run) (sh_state run) = ShReturned h st ret"
  shows "sh_log (sh_outcome_run (sh_execute_step g reg run (VStr name))) =
           sh_log run @ [\<lparr>sh_node = VStr name,
                          sh_snapshot = dict_update st (case ret of None \<Rightarrow> [] | Some u \<Rightarrow> u)\<rparr>]"
  using assms
  by (auto simp: sh_execute_step_def Let_def split: sum.splits)

lemma sh_reaches_log_length:
  "sh_reaches g reg c c' \<Longrightarrow>
   length (sh_log (fst c')) + snd (snd c) = length (sh_log (fst c)) + snd (snd c')"
proof (induction rule: sh_reaches.induct)
  case sh_reaches_refl
  show ?case by simp
next
  case (sh_reaches_step c run current steps run' next_node)
  from sh_execute_step_next_log [OF sh_reaches_step.hyps(4)]
  have "length (sh_log run') = length (sh_log run) + 1" by simp
  with sh_reaches_step.IH show ?case by simp
qed

lemma sh_execute_loop_log_extends:
  "sh_execute_loop g reg run current steps = (r, x) \<Longrightarrow> \<exists>ys. sh_log r = sh_log run @ ys"
proof (induction g reg run current steps rule: sh_execute_loop.induct)
  case (1 g reg run current steps)
  show ?case
  proof (cases "truthy current \<and> steps < max_steps")
    case False
    with "1.prems" show ?thesis by (subst (asm) sh_execute_loop.simps) auto
  next
    case True
    show ?thesis
    proof (cases "sh_execute_step g reg run current")
      case (ShRaise r' e')
      with True "1.prems" have "r' = r"
        by (subst (asm) sh_execute_loop.simps) simp
      with ShRaise sh_execute_step_log [of g reg run current] show ?thesis
        by auto
    next
      case (ShBreak r')
      with True "1.prems" have "r' = r"
        by (subst (asm) sh_execute_loop.simps) simp
      with ShBreak sh_execute_step_log [of g reg run current] show ?thesis
        by auto
    next
      case (ShNext r' nxt)
      with True "1.prems" have "sh_execute_loop g reg r' nxt (steps + 1) = (r, x)"
        by (subst (asm) sh_execute_loop.simps) simp
      with "1.IH" [OF True ShNext] obtain ys where "sh_log r = sh_log r' @ ys" by auto
      with sh_execute_step_next_log [OF ShNext] show ?thesis by simp
    qed
  qed
qed

lemma sh_execute_loop_after_merge:
  assumes guard: "name \<noteq> []" "steps < max_steps"
    and tool: "reg name = Some tool" "tool (sh_heap run) (sh_state run) = ShReturned h st ret"
    and loop: "sh_execute_loop g reg run (VStr name) steps = (r, x)"
  shows "\<exists>ys. sh_log r =
           sh_log run @ [\<lparr>sh_node = VStr name,
                          sh_snapshot = dict_update st (case ret of None \<Rightarrow> [] | Some u \<Rightarrow> u)\<rparr>] @ ys"
proof -
  note step = sh_execute_step_returned_log [of reg name tool run h st ret g, OF tool]
  show ?thesis
  proof (cases "sh_execute_step g reg run (VStr name)")
    case (ShRaise r' e')
    with guard loop have "r' = r"
      by (subst (asm) sh_execute_loop.simps) simp
    with ShRaise step show ?thesis by simp
  next
    case (ShBreak r')
    with guard loop have "r' = r"
      by (subst (asm) sh_execute_loop.simps) simp
    with ShBreak step show ?thesis by simp
  next
    case (ShNext r' nxt)
    with guard loop have "sh_execute_loop g reg r' nxt (steps + 1) = (r, x)"
      by (subst (asm) sh_execute_loop.simps) simp
    then obtain ys where "sh_log r = sh_log r' @ ys"
      by (auto dest: sh_execute_loop_log_extends)
    with ShNext step show ?thesis by simp
  qed
qed

lemma view_flat: "\<not> is_ref v \<Longrightarrow> view n h v = view n h' v"
  by (cases n; cases v) simp_all

lemma view_dict_flat:
  "\<forall>(k, v) \<in> set d. \<not> is_ref v \<Longrightarrow> view_dict n h d = view_dict n h' d"
  by (auto simp: view_dict_def intro: view_flat)

text \<open>
  Claim C9 says that a log snapshot is an independent copy, which no later step alters.
  The tool of \<open>A\<close> returns \<^verbatim>\<open>{"xs": [1]}\<close>; the tool of \<open>B\<close> runs
  \<^verbatim>\<open>state["xs"].append(2)\<close>. Right after the first step the entry of \<open>A\<close> reads
  \<open>xs = [1]\<close>; in the record that is returned the same entry reads \<open>xs = [1, 2]\<close>.
\<close>

theorem shared_nested_value_counterexample:
  "sh_execute_step list_graph list_registry (sh_new_run list_graph [] []) (VStr ''A'') =
     ShNext \<lparr>sh_status = ''running'', sh_current_node = VStr ''A'',
             sh_state = [(''xs'', HRef 0)],
             sh_log = [\<lparr>sh_node = VStr ''A'', sh_snapshot = [(''xs'', HRef 0)]\<rparr>],
             sh_error_message = None, sh_heap = [(0, OList [HInt 1])]\<rparr>
       (VStr ''B'')
   \<and> view_dict 1 [(0, OList [HInt 1])] [(''xs'', HRef 0)] = [(''xs'', VList [VInt 1])]
   \<and> view_dict 1 (sh_heap (sh_run_graph list_graph list_registry [] []))
        (sh_snapshot (sh_log (sh_run_graph list_graph list_registry [] []) ! 0)) =
      [(''xs'', VList [VInt 1, VInt 2])]"
  by (simp add: sh_defs view_dict_def)

text \<open>
  Claim C9, amended. Take any step of a run at which the tool returns; let it be the
  pass number \<open>steps\<close>, counted from 0, on node \<open>name\<close>. The log then holds \<open>steps\<close>
  entries. In the record returned in the end those entries stand as they were, and the
  entry at index \<open>steps\<close> is the node \<open>name\<close> with a shallow copy of the state right after
  the merge of that pass: every key is bound to the same value or the same object as
  then. So a snapshot that holds no list or dict reads at the end as it read after its
  step; a list or dict it holds is shared with the state, and what it reads there
  follows the object.
\<close>

theorem shallow_log_snapshots:
  assumes reach: "sh_reaches g reg (sh_new_run g h0 initial_state, VStr (start_node g), 0)
                    (run, VStr name, steps)"
    and guard: "name \<noteq> []" "steps < max_steps"
    and tool: "reg name = Some tool" "tool (sh_heap run) (sh_state run) = ShReturned h st ret"
    and post: "post = dict_update st (case ret of None \<Rightarrow> [] | Some u \<Rightarrow> u)"
    and final: "r = sh_run_graph g reg h0 initial_state"
  shows "length (sh_log run) = steps \<and> take steps (sh_log r) = sh_log run \<and>
         steps < length (sh_log r) \<and>
         sh_log r ! steps = \<lparr>sh_node = VStr name, sh_snapshot = post\<rparr> \<and>
         ((\<forall>(k, v) \<in> set post. \<not> is_ref v) \<longrightarrow>
            view_dict n (sh_heap r) (sh_snapshot (sh_log r ! steps)) = view_dict n h post)"
proof -
  from sh_reaches_log_length [OF reach] have len: "length (sh_log run) = steps"
    by (simp add: sh_new_run_def)
  obtain r' x where loop: "sh_execute_loop g reg run (VStr name) steps = (r', x)"
    by (cases "sh_execute_loop g reg run (VStr name) steps")
  from sh_reaches_loop [OF reach] final loop have "r = sh_finish_run (r', x)"
    by (simp add: sh_run_graph_def)
  then have "sh_log r = sh_log r'" by (cases x) (simp_all add: sh_finish_run_def)
  with sh_execute_loop_after_merge [OF guard tool loop] obtain ys where
    "sh_log r = sh_log run @ [\<lparr>sh_node = VStr name, sh_snapshot = post\<rparr>] @ ys"
    unfolding post by auto
  with len have a: "take steps (sh_log r) = sh_log run" "steps < length (sh_log r)"
    "sh_log r ! steps = \<lparr>sh_node = VStr name, sh_snapshot = post\<rparr>"
    by (simp_all add: nth_append)
  then have "view_dict n (sh_heap r) (sh_snapshot (sh_log r ! steps)) = view_dict n h post"
    if "\<forall>(k, v) \<in> set post. \<not> is_ref v"
    using that by (simp add: view_dict_flat [of post n "sh_heap r" h])
  with len a show ?thesis by blast
qed

text \<open>
  The entry of \<open>A\<close> keeps its binding of \<open>xs\<close> to the list object. In the run of \<open>C\<close>, \<open>A\<close>
  and \<open>B\<close> the first entry holds a number only and reads the same in the end, though
  the later steps have added a key and changed the list.
\<close>

theorem shallow_log_snapshots_witness:
  "sh_log (sh_run_graph list_graph list_registry [] []) ! 0 =
     \<lparr>sh_node = VStr ''A'', sh_snapshot = [(''xs'', HRef 0)]\<rparr>
   \<and> length (sh_log (sh_run_graph list_graph list_registry [] [])) = 2
   \<and> sh_heap (sh_run_graph count_graph list_registry [] []) = [(0, OList [HInt 1, HInt 2])]
   \<and> view_dict 1 (sh_heap (sh_run_graph count_graph list_registry [] []))
        (sh_snapshot (sh_log (sh_run_graph count_graph list_registry [] []) ! 0)) =
      [(''n'', VInt 1)]"
proof (intro conjI)
  have reach: "sh_reaches list_graph list_registry
                 (sh_new_run list_graph [] [], VStr (start_node list_graph), 0)
                 (sh_new_run list_graph [] [], VStr ''A'', 0)"
    by (simp add: list_graph_def sh_reaches_refl)
  have tool: "list_registry ''A'' = Some make_list"
    "make_list (sh_heap (sh_new_run list_graph [] [])) (sh_state (sh_new_run list_graph [] [])) =
       ShReturned [(0, OList [HInt 1])] [] (Some [(''xs'', HRef 0)])"
    by (simp_all add: list_registry_def make_list_def sh_new_run_def)
  have post: "[(''xs'', HRef 0)] =
                dict_update [] (case Some [(''xs'', HRef 0)] of None \<Rightarrow> [] | Some u \<Rightarrow> u)"
    by (simp add: dict_set_def)
  from shallow_log_snapshots [OF reach _ _ tool post refl]
  show "sh_log (sh_run_graph list_graph list_registry [] []) ! 0 =
          \<lparr>sh_node = VStr ''A'', sh_snapshot = [(''xs'', HRef 0)]\<rparr>"
    by (simp add: max_steps_def)
  show "length (sh_log (sh_run_graph list_graph list_registry [] [])) = 2"
    by (simp add: sh_defs)
next
  show "sh_heap (sh_run_graph count_graph list_registry [] []) = [(0, OList [HInt 1, HInt 2])]"
    by (simp add: sh_defs)
next
  have reach: "sh_reaches count_graph list_registry
                 (sh_new_run count_graph [] [], VStr (start_node count_graph), 0)
                 (sh_new_run count_graph [] [], VStr ''C'', 0)"
    by (simp add: count_graph_def sh_reaches_refl)
  have tool: "list_registry ''C'' = Some count_one"
    "count_one (sh_heap (sh_new_run count_graph [] [])) (sh_state (sh_new_run count_graph [] [])) =
       ShReturned [] [] (Some [(''n'', HInt 1)])"
    by (simp_all add: list_registry_def count_one_def sh_new_run_def)
  have post: "[(''n'', HInt 1)] =
                dict_update [] (case Some [(''n'', HInt 1)] of None \<Rightarrow> [] | Some u \<Rightarrow> u)"
    by (simp add: dict_set_def)
  have flat: "\<forall>(k, v) \<in> set [(''n'', HInt 1)]. \<not> is_ref v" by simp
  from shallow_log_snapshots [OF reach _ _ tool post refl, where n = 1] flat
  show "view_dict 1 (sh_heap (sh_run_graph count_graph list_registry [] []))
          (sh_snapshot (sh_log (sh_run_graph count_graph list_registry [] []) ! 0)) =
        [(''n'', VInt 1)]"
    by (simp add: max_steps_def view_dict_def)
qed

end
